theory Spec2Isabelle
  imports Main
begin

section \<open>RooAbsGoodnessOfFit: the goodness-of-fit evaluation engine\<close>

text \<open>
  A shallow embedding of \<^verbatim>\<open>roofitcore/src/RooAbsGoodnessOfFit.cxx\<close>: the constructor, the copy
  constructor, \<^verbatim>\<open>evaluate\<close>, \<^verbatim>\<open>initialize\<close>, \<^verbatim>\<open>redirectServersHook\<close>, \<^verbatim>\<open>constOptimize\<close>,
  \<^verbatim>\<open>setMPSet\<close>, \<^verbatim>\<open>initMPMode\<close> and \<^verbatim>\<open>initSimMode\<close>. An object is a value; a member function
  takes the object and returns the updated object. A call that does not return normally
  (\<^verbatim>\<open>RooErrorHandler::softAbort\<close>, a null or out-of-range pointer, an integer division by zero)
  returns a \<open>fault\<close> instead.
\<close>

subsection \<open>Int_t arithmetic\<close>

text \<open>
  \<^verbatim>\<open>Int_t\<close> is a 32-bit signed integer. The model computes on \<open>int\<close> and writes the
  two's-complement wrap-around out where the source multiplies, adds and divides event
  numbers (\<^verbatim>\<open>evaluate\<close>, lines 172-173). The object counters \<^verbatim>\<open>_nGof\<close>, \<^verbatim>\<open>_nCPU\<close> and
  \<^verbatim>\<open>_simCount\<close> count objects held in memory and are kept as plain \<open>int\<close>.
\<close>

type_synonym Int_t = int

definition wrap32 :: "int \<Rightarrow> Int_t" where
  "wrap32 x = (x + 2147483648) mod 4294967296 - 2147483648"

text \<open>Integer division of C++: the quotient is truncated towards zero.\<close>

definition cdiv :: "int \<Rightarrow> int \<Rightarrow> int" where
  "cdiv a b = (if (a < 0) = (b < 0) then \<bar>a\<bar> div \<bar>b\<bar> else - (\<bar>a\<bar> div \<bar>b\<bar>))"

text \<open>
  \<^verbatim>\<open>Int_t nFirst = _nEvents * _setNum / _numSets ;\<close> and
  \<^verbatim>\<open>Int_t nLast = _nEvents * (_setNum+1) / _numSets ;\<close>
  The caller tests \<^verbatim>\<open>_numSets\<close> against zero before it divides.
\<close>

definition nFirst :: "Int_t \<Rightarrow> Int_t \<Rightarrow> Int_t \<Rightarrow> Int_t" where
  "nFirst nEv sn ns = wrap32 (cdiv (wrap32 (nEv * sn)) ns)"

definition nLast :: "Int_t \<Rightarrow> Int_t \<Rightarrow> Int_t \<Rightarrow> Int_t" where
  "nLast nEv sn ns = wrap32 (cdiv (wrap32 (nEv * wrap32 (sn + 1))) ns)"

subsection \<open>The collaborators: names, models, datasets, messages\<close>

type_synonym RooArgSet = "string list"

text \<open>\<^verbatim>\<open>RooAbsArg::ConstOpCode\<close> is an enumeration declared outside this file; its values are
  passed through unchanged.\<close>

type_synonym ConstOpCode = int

datatype GOFOpMode = SimMaster | MPMaster | Slave

text \<open>A name or title. \<^verbatim>\<open>Form("%s_GOF%d",s,i)\<close> and \<^verbatim>\<open>Form("%s_MPFE%d",s,i)\<close> are kept symbolic.\<close>

datatype TString = TString string | Form_GOF TString Int_t | Form_MPFE TString Int_t

text \<open>
  A probability model is a plain p.d.f. or a \<^verbatim>\<open>RooSimultaneous\<close>: the latter has an index
  category (the names of its states, in declaration order, as \<^verbatim>\<open>typeIterator\<close> yields them)
  and the association from state names to component p.d.f.s that \<^verbatim>\<open>getPdf\<close> searches.
  \<open>getParameters\<close> is the parameter set of the model.
\<close>

datatype RooAbsPdf =
    PlainPdf (getParameters: RooArgSet)
  | RooSimultaneous (getParameters: RooArgSet) (indexCat: "string list")
      (pdfList: "(string \<times> RooAbsPdf) list")

text \<open>
  A dataset has a number of entries and the outcome of \<^verbatim>\<open>split(simCat)\<close>: no list
  (a null pointer) when the split fails, else the list of named subsets, which
  \<^verbatim>\<open>FindObject\<close> searches by name.
\<close>

datatype RooAbsData =
  RooAbsData (numEntries: Int_t) (split: "(string \<times> RooAbsData) list option")

text \<open>The lines written to \<^verbatim>\<open>cout\<close>, one constructor per message of the source.\<close>

datatype message =
    UnableToSplit TString
  | CreatingSlave Int_t string Int_t
  | NoDataEntries string
  | StartingServer Int_t

subsection \<open>The object\<close>

text \<open>
  The data members of the class. \<open>cout\<close> collects the lines this object has printed;
  \<open>redirects\<close> collects the calls of \<^verbatim>\<open>RooAbsArg::recursiveRedirectServers\<close> this object has
  received (that function belongs to the base class and is not part of this file).
\<close>

record gof_fields =
  GetName :: TString
  GetTitle :: TString
  paramSet :: RooArgSet
  pdf :: RooAbsPdf
  dataset :: RooAbsData
  projDeps :: RooArgSet
  simCount :: Int_t
  nGof :: Int_t
  nCPU :: Int_t
  gofOpMode :: GOFOpMode
  setNum :: Int_t
  numSets :: Int_t
  init :: bool
  nEvents :: Int_t
  cout :: "message list"
  redirects :: "(RooArgSet \<times> bool \<times> bool) list"

text \<open>
  Modelled from the spec: the worker front-end \<^verbatim>\<open>RooRealMPFE\<close>, whose code is not in this
  repository's files. A front-end owns a private copy of the engine it wraps
  (\<open>arg\<close>), runs inline or as a separate process (\<open>doInline\<close>), is initialized once, and
  passes structural changes on to its engine; \<open>mpfe_msgs\<close> lists the constant-optimization
  codes it has been sent.
\<close>

datatype 'e RooRealMPFE =
  MPFE (mpfe_name: TString) (mpfe_title: TString) (arg: 'e) (doInline: bool) (mpfe_init: bool)
       (mpfe_msgs: "ConstOpCode list")

text \<open>
  The object: its data members, the array \<^verbatim>\<open>_gofArray\<close> and the array \<^verbatim>\<open>_mpfeArray\<close>. An array
  element is a pointer: \<open>None\<close> is a pointer that was never set. A null array pointer is
  the empty list: reading any element of it is a fault.
\<close>

datatype RooAbsGoodnessOfFit =
  GOF (members: gof_fields) (gofArray: "RooAbsGoodnessOfFit option list")
      (mpfeArray: "RooAbsGoodnessOfFit RooRealMPFE option list")

text \<open>
  How a call can fail to return. \<open>SoftAbort\<close> carries the object as it was when
  \<^verbatim>\<open>RooErrorHandler::softAbort()\<close> was called. \<open>InvalidPointer\<close> is the use of a null, unset or
  out-of-range array element; \<open>DivideByZero\<close> an \<^verbatim>\<open>Int_t\<close> division by zero; \<open>BadCast\<close> the
  use, as a \<^verbatim>\<open>RooSimultaneous\<close>, of a model that is none.
\<close>

datatype fault = SoftAbort RooAbsGoodnessOfFit | InvalidPointer | DivideByZero | BadCast

type_synonym 'a result = "fault + 'a"

text \<open>
  The class's pure virtual functions, supplied by a concrete subclass:
  \<^verbatim>\<open>evaluatePartition(nFirst,nLast)\<close>, a \<^verbatim>\<open>const\<close> member function, and \<^verbatim>\<open>combinedValue\<close>,
  which reduces the values of an array of sub-results.
\<close>

record 'v gof_class =
  evaluatePartition :: "RooAbsGoodnessOfFit \<Rightarrow> Int_t \<Rightarrow> Int_t \<Rightarrow> 'v"
  combinedValue :: "'v list \<Rightarrow> 'v"

subsection \<open>Construction\<close>

text \<open>\<^verbatim>\<open>dynamic_cast<RooSimultaneous*>(&pdf)\<close> succeeds exactly on a \<^verbatim>\<open>RooSimultaneous\<close>.\<close>

definition isSimultaneous :: "RooAbsPdf \<Rightarrow> bool" where
  "isSimultaneous p = (case p of PlainPdf ps \<Rightarrow> False | RooSimultaneous ps cats pm \<Rightarrow> True)"

text \<open>
  The constructor (lines 44-82). \<^verbatim>\<open>pdf.getParameters(&data)\<close> is the model's parameter set;
  the projected dependents are copied; the arrays start as null pointers.
\<close>

definition RooAbsGoodnessOfFit ::
  "TString \<Rightarrow> TString \<Rightarrow> RooAbsPdf \<Rightarrow> RooAbsData \<Rightarrow> RooArgSet \<Rightarrow> Int_t \<Rightarrow> RooAbsGoodnessOfFit" where
  "RooAbsGoodnessOfFit name title pdf0 data0 projDeps0 nCPU0 =
     GOF \<lparr> GetName = name, GetTitle = title,
           paramSet = getParameters pdf0,
           pdf = pdf0, dataset = data0, projDeps = projDeps0,
           simCount = 1, nGof = 0, nCPU = nCPU0,
           gofOpMode = (if nCPU0 > 1 then MPMaster
                        else if isSimultaneous pdf0 then SimMaster else Slave),
           setNum = 0, numSets = 1, init = False,
           nEvents = numEntries data0,
           cout = [], redirects = [] \<rparr> [] []"

text \<open>
  Modelled from the spec: the virtual factory \<^verbatim>\<open>create\<close>, pure virtual in this class. It
  builds an engine of the same concrete class, bound to the given model, dataset and
  projected dependents, with the worker count 1, so that its mode is \<open>Slave\<close> or
  \<open>SimMaster\<close>.
\<close>

definition create ::
  "TString \<Rightarrow> TString \<Rightarrow> RooAbsPdf \<Rightarrow> RooAbsData \<Rightarrow> RooArgSet \<Rightarrow> RooAbsGoodnessOfFit" where
  "create name title pdf0 data0 projDeps0 = RooAbsGoodnessOfFit name title pdf0 data0 projDeps0 1"

text \<open>
  Modelled from the spec: \<^verbatim>\<open>setSimCount\<close>, declared in the header, which is not among the
  files. It records the number of sibling engines under a common \<open>SimMaster\<close> parent.
\<close>

definition setSimCount :: "Int_t \<Rightarrow> RooAbsGoodnessOfFit \<Rightarrow> RooAbsGoodnessOfFit" where
  "setSimCount n this = GOF ((members this)\<lparr>simCount := n\<rparr>) (gofArray this) (mpfeArray this)"

text \<open>
  \<^verbatim>\<open>RooAbsArg::recursiveRedirectServers\<close>, a base-class function outside this file: the
  receiving object notes the call and its arguments.
\<close>

definition recursiveRedirectServers ::
  "RooArgSet \<Rightarrow> bool \<Rightarrow> bool \<Rightarrow> RooAbsGoodnessOfFit \<Rightarrow> RooAbsGoodnessOfFit" where
  "recursiveRedirectServers newServerList mustReplaceAll nameChange this =
     GOF ((members this)\<lparr>redirects :=
            redirects (members this) @ [(newServerList, mustReplaceAll, nameChange)]\<rparr>)
         (gofArray this) (mpfeArray this)"

definition SetName :: "TString \<Rightarrow> RooAbsGoodnessOfFit \<Rightarrow> RooAbsGoodnessOfFit" where
  "SetName s this = GOF ((members this)\<lparr>GetName := s\<rparr>) (gofArray this) (mpfeArray this)"

definition SetTitle :: "TString \<Rightarrow> RooAbsGoodnessOfFit \<Rightarrow> RooAbsGoodnessOfFit" where
  "SetTitle s this = GOF ((members this)\<lparr>GetTitle := s\<rparr>) (gofArray this) (mpfeArray this)"

text \<open>\<^verbatim>\<open>cout << ... << endl\<close>: the object prints one line.\<close>

definition writeCout :: "message \<Rightarrow> RooAbsGoodnessOfFit \<Rightarrow> RooAbsGoodnessOfFit" where
  "writeCout m this =
     GOF ((members this)\<lparr>cout := cout (members this) @ [m]\<rparr>) (gofArray this) (mpfeArray this)"

subsection \<open>initSimMode\<close>

text \<open>\<^verbatim>\<open>simpdf->getPdf(name)\<close> and \<^verbatim>\<open>dsetList->FindObject(name)\<close>: the first entry of that name,
  or a null pointer.\<close>

definition getPdf :: "RooAbsPdf \<Rightarrow> string \<Rightarrow> RooAbsPdf option" where
  "getPdf simpdf catName = map_of (pdfList simpdf) catName"

definition FindObject :: "(string \<times> RooAbsData) list \<Rightarrow> string \<Rightarrow> RooAbsData option" where
  "FindObject dsetList catName = map_of dsetList catName"

text \<open>The first loop over the states (lines 291-300): \<^verbatim>\<open>if (pdf && dset) _nGof++\<close>.\<close>

fun countUsed :: "RooAbsPdf \<Rightarrow> (string \<times> RooAbsData) list \<Rightarrow> string list \<Rightarrow> Int_t \<Rightarrow> Int_t" where
  "countUsed simpdf dsetList [] n = n"
| "countUsed simpdf dsetList (t # ts) n =
     countUsed simpdf dsetList ts
       (if getPdf simpdf t \<noteq> None \<and> FindObject dsetList t \<noteq> None then n + 1 else n)"

text \<open>\<^verbatim>\<open>_gofArray[n] = gof\<close>: a write outside the allocated array is a fault.\<close>

definition storeGof ::
  "Int_t \<Rightarrow> RooAbsGoodnessOfFit \<Rightarrow> RooAbsGoodnessOfFit \<Rightarrow> RooAbsGoodnessOfFit result" where
  "storeGof n child this =
     (if 0 \<le> n \<and> nat n < length (gofArray this)
      then Inr (GOF (members this) ((gofArray this)[nat n := Some child]) (mpfeArray this))
      else Inl InvalidPointer)"

text \<open>
  The second loop over the states (lines 307-328), with its counter \<^verbatim>\<open>n\<close>: a state with a
  p.d.f. and a data subset gets an engine from \<^verbatim>\<open>create\<close>, told the sibling count and the
  parent's parameter set, and stored at index \<^verbatim>\<open>n\<close>; a state with a p.d.f. and no data
  subset gets a line on \<^verbatim>\<open>cout\<close>.
\<close>

fun fillGofArray ::
  "RooAbsPdf \<Rightarrow> (string \<times> RooAbsData) list \<Rightarrow> RooArgSet \<Rightarrow> string list
     \<Rightarrow> Int_t \<times> RooAbsGoodnessOfFit \<Rightarrow> (Int_t \<times> RooAbsGoodnessOfFit) result" where
  "fillGofArray simpdf dsetList projDeps0 [] (n, this) = Inr (n, this)"
| "fillGofArray simpdf dsetList projDeps0 (t # ts) (n, this) =
     (case (getPdf simpdf t, FindObject dsetList t) of
        (Some p, Some dset) \<Rightarrow>
          (let this1 = writeCout (CreatingSlave n t (numEntries dset)) this;
               gof = create (TString t) (TString t) p dset projDeps0;
               gof1 = setSimCount (nGof (members this1)) gof;
               gof2 = recursiveRedirectServers (paramSet (members this1)) False False gof1
           in case storeGof n gof2 this1 of
                Inl e \<Rightarrow> Inl e
              | Inr this2 \<Rightarrow> fillGofArray simpdf dsetList projDeps0 ts (n + 1, this2))
      | (Some p, None) \<Rightarrow>
          fillGofArray simpdf dsetList projDeps0 ts (n, writeCout (NoDataEntries t) this)
      | (None, d) \<Rightarrow> fillGofArray simpdf dsetList projDeps0 ts (n, this))"

text \<open>
  \<^verbatim>\<open>initSimMode\<close> (lines 274-333). The caller passes \<^verbatim>\<open>(RooSimultaneous*)_pdf\<close>, an unchecked
  cast. When \<^verbatim>\<open>split\<close> returns no list the function prints a line and calls
  \<^verbatim>\<open>RooErrorHandler::softAbort()\<close>.

  Modelled from the spec: \<^verbatim>\<open>RooErrorHandler::softAbort\<close>, which is not among the files. It
  surfaces an unrecoverable-error signal; control does not come back to the function
  that called it.
\<close>

definition initSimMode ::
  "RooAbsGoodnessOfFit \<Rightarrow> RooAbsPdf \<Rightarrow> RooAbsData \<Rightarrow> RooArgSet \<Rightarrow> RooAbsGoodnessOfFit result" where
  "initSimMode this simpdf data0 projDeps0 =
     (if \<not> isSimultaneous simpdf then Inl BadCast
      else case split data0 of
        None \<Rightarrow> Inl (SoftAbort (writeCout (UnableToSplit (GetName (members this))) this))
      | Some dsetList \<Rightarrow>
          (let n0 = countUsed simpdf dsetList (indexCat simpdf) 0;
               this1 = GOF ((members this)\<lparr>nGof := n0\<rparr>) (replicate (nat n0) None) (mpfeArray this)
           in case fillGofArray simpdf dsetList projDeps0 (indexCat simpdf) (0, this1) of
                Inl e \<Rightarrow> Inl e
              | Inr (n, this2) \<Rightarrow> Inr this2))"

subsection \<open>Loops over the child array\<close>

text \<open>
  \<^verbatim>\<open>for (i=0 ; i<_nGof ; i++) { if (_gofArray[i]) _gofArray[i]->f(...) ; }\<close>: the first \<open>n\<close>
  elements in order, skipping null pointers; an index beyond the array is a fault, and a
  fault of \<open>g\<close> ends the loop.
\<close>

fun forChildren ::
  "(RooAbsGoodnessOfFit \<Rightarrow> RooAbsGoodnessOfFit result) \<Rightarrow> nat \<Rightarrow> RooAbsGoodnessOfFit option list
     \<Rightarrow> RooAbsGoodnessOfFit option list result" where
  "forChildren g 0 arr = Inr arr"
| "forChildren g (Suc n) [] = Inl InvalidPointer"
| "forChildren g (Suc n) (None # rest) =
     (case forChildren g n rest of Inl e \<Rightarrow> Inl e | Inr rest' \<Rightarrow> Inr (None # rest'))"
| "forChildren g (Suc n) (Some c # rest) =
     (case g c of
        Inl e \<Rightarrow> Inl e
      | Inr c' \<Rightarrow> (case forChildren g n rest of Inl e \<Rightarrow> Inl e | Inr rest' \<Rightarrow> Inr (Some c' # rest')))"

lemma forChildren_cong [fundef_cong]:
  assumes "n = n'" "arr = arr'" "\<And>c. Some c \<in> set arr' \<Longrightarrow> g c = g' c"
  shows "forChildren g n arr = forChildren g' n' arr'"
proof -
  have "(\<And>c. Some c \<in> set arr \<Longrightarrow> g c = g' c) \<Longrightarrow> forChildren g n arr = forChildren g' n arr"
    by (induction g n arr rule: forChildren.induct) (auto split: sum.splits)
  then show ?thesis using assms by simp
qed


subsection \<open>A measure for the recursion through lazily built children\<close>

text \<open>
  \<^verbatim>\<open>setMPSet\<close>, \<^verbatim>\<open>constOptimize\<close> and \<^verbatim>\<open>evaluate\<close> call themselves on the children of the object,
  and the children may only come into being during the call, through \<^verbatim>\<open>initialize\<close>. The
  recursion ends because a child is bound to a component of the parent's model.
  \<open>pot\<close> bounds the engines a model can still give rise to; \<open>rank\<close> adds the engines an
  object already owns.
\<close>

fun pot :: "RooAbsPdf \<Rightarrow> nat" where
  "pot (PlainPdf ps) = 0"
| "pot (RooSimultaneous ps cats pm) = length cats * (2 + sum_list (map (\<lambda>np. pot (snd np)) pm))"

primrec rank :: "RooAbsGoodnessOfFit \<Rightarrow> nat" where
  "rank (GOF f arr mp) =
     1 + (if init f then 0 else (if gofOpMode f = MPMaster then 2 else 1) + pot (pdf f))
       + sum_list (map (\<lambda>c. case c of None \<Rightarrow> 0 | Some r \<Rightarrow> r) (map (map_option rank) arr))
       + sum_list (map (\<lambda>w. case w of None \<Rightarrow> 0 | Some m \<Rightarrow> arg m) (map (map_option (map_RooRealMPFE rank)) mp))"

abbreviation childRank :: "RooAbsGoodnessOfFit option \<Rightarrow> nat" where
  "childRank c \<equiv> (case c of None \<Rightarrow> 0 | Some r \<Rightarrow> rank r)"

abbreviation workerRank :: "RooAbsGoodnessOfFit RooRealMPFE option \<Rightarrow> nat" where
  "workerRank w \<equiv> (case w of None \<Rightarrow> 0 | Some m \<Rightarrow> rank (arg m))"

lemma a1: "sum_list (map (\<lambda>c. case c of None \<Rightarrow> 0 | Some r \<Rightarrow> r) (map (map_option rank) arr))
           = sum_list (map childRank arr)"
  by (induction arr) (auto split: option.splits)

lemma b1: "sum_list (map (\<lambda>w. case w of None \<Rightarrow> 0 | Some m \<Rightarrow> arg m) (map (map_option (map_RooRealMPFE rank)) mp))
           = sum_list (map workerRank mp)"
  by (induction mp) (auto split: option.splits simp: RooRealMPFE.map_sel)

lemma rank_eq:
  "rank (GOF f arr mp) =
     1 + (if init f then 0 else (if gofOpMode f = MPMaster then 2 else 1) + pot (pdf f))
       + sum_list (map childRank arr) + sum_list (map workerRank mp)"
  unfolding rank.simps a1 b1 ..

declare rank.simps [simp del]

lemma childRank_le: "c \<in> set arr \<Longrightarrow> childRank c \<le> sum_list (map childRank arr)"
  by (induction arr) auto

lemma workerRank_le: "w \<in> set mp \<Longrightarrow> workerRank w \<le> sum_list (map workerRank mp)"
  by (induction mp) auto

lemma child_rank_less: "Some c \<in> set arr \<Longrightarrow> rank c < rank (GOF f arr mp)"
  using childRank_le[of "Some c" arr] by (simp add: rank_eq)

lemma worker_rank_less: "Some w \<in> set mp \<Longrightarrow> rank (arg w) < rank (GOF f arr mp)"
  using workerRank_le[of "Some w" mp] by (simp add: rank_eq)


definition accepted :: "RooAbsPdf \<Rightarrow> (string \<times> RooAbsData) list \<Rightarrow> string list \<Rightarrow> string list" where
  "accepted simpdf dsetList ts =
     filter (\<lambda>t. getPdf simpdf t \<noteq> None \<and> FindObject dsetList t \<noteq> None) ts"

definition slaveFor ::
  "Int_t \<Rightarrow> RooArgSet \<Rightarrow> RooArgSet \<Rightarrow> RooAbsPdf \<Rightarrow> (string \<times> RooAbsData) list \<Rightarrow> string
     \<Rightarrow> RooAbsGoodnessOfFit" where
  "slaveFor cnt params projDeps0 simpdf dsetList t =
     recursiveRedirectServers params False False
       (setSimCount cnt
         (create (TString t) (TString t) (the (getPdf simpdf t)) (the (FindObject dsetList t)) projDeps0))"

fun simMessages :: "RooAbsPdf \<Rightarrow> (string \<times> RooAbsData) list \<Rightarrow> string list \<Rightarrow> Int_t \<Rightarrow> message list" where
  "simMessages simpdf dsetList [] n = []"
| "simMessages simpdf dsetList (t # ts) n =
     (case (getPdf simpdf t, FindObject dsetList t) of
        (Some p, Some dset) \<Rightarrow> CreatingSlave n t (numEntries dset) # simMessages simpdf dsetList ts (n + 1)
      | (Some p, None) \<Rightarrow> NoDataEntries t # simMessages simpdf dsetList ts n
      | (None, d) \<Rightarrow> simMessages simpdf dsetList ts n)"

lemma countUsed_eq:
  "countUsed simpdf dsetList ts n = n + int (length (accepted simpdf dsetList ts))"
  by (induction ts arbitrary: n) (auto simp: accepted_def)

lemma fields_simps [simp]:
  "members (writeCout m this) = (members this)\<lparr>cout := cout (members this) @ [m]\<rparr>"
  "gofArray (writeCout m this) = gofArray this"
  "mpfeArray (writeCout m this) = mpfeArray this"
  by (simp_all add: writeCout_def)

lemma take_Suc_update: "k < length xs \<Longrightarrow> take (Suc k) (xs[k := x]) = take k xs @ [x]"
  by (simp add: take_Suc_conv_app_nth)

lemma fill_exact:
  assumes "0 \<le> n" "nat n + length (accepted simpdf dsetList ts) \<le> length (gofArray this)"
  shows "fillGofArray simpdf dsetList projDeps0 ts (n, this) =
           Inr (n + int (length (accepted simpdf dsetList ts)),
                GOF ((members this)\<lparr>cout := cout (members this) @ simMessages simpdf dsetList ts n\<rparr>)
                    (take (nat n) (gofArray this)
                      @ map (\<lambda>t. Some (slaveFor (nGof (members this)) (paramSet (members this)) projDeps0 simpdf dsetList t))
                            (accepted simpdf dsetList ts)
                      @ drop (nat n + length (accepted simpdf dsetList ts)) (gofArray this))
                    (mpfeArray this))"
  using assms
proof (induction ts arbitrary: n this)
  case Nil
  then show ?case by (simp add: accepted_def)
next
  case (Cons t ts)
  show ?case
  proof (cases "getPdf simpdf t")
    case None
    then have acc: "accepted simpdf dsetList (t # ts) = accepted simpdf dsetList ts"
      by (simp add: accepted_def)
    show ?thesis using Cons.IH[of n this] Cons.prems None by (simp add: acc)
  next
    case (Some p)
    note p = Some
    show ?thesis
    proof (cases "FindObject dsetList t")
      case None
      then have acc: "accepted simpdf dsetList (t # ts) = accepted simpdf dsetList ts"
        by (simp add: accepted_def)
      show ?thesis
        using Cons.IH[of n "writeCout (NoDataEntries t) this"] Cons.prems None p
        by (simp add: acc)
    next
      case (Some d)
      then have acc: "accepted simpdf dsetList (t # ts) = t # accepted simpdf dsetList ts"
        using p by (simp add: accepted_def)
      let ?this1 = "writeCout (CreatingSlave n t (numEntries d)) this"
      let ?child = "slaveFor (nGof (members this)) (paramSet (members this)) projDeps0 simpdf dsetList t"
      let ?this2 = "GOF (members ?this1) ((gofArray this)[nat n := Some ?child]) (mpfeArray this)"
      have lt: "nat n < length (gofArray this)" using Cons.prems by (simp add: acc)
      have st: "storeGof n ?child ?this1 = Inr ?this2"
        using lt Cons.prems by (simp add: storeGof_def)
      have ih: "fillGofArray simpdf dsetList projDeps0 ts (n + 1, ?this2) =
           Inr (n + 1 + int (length (accepted simpdf dsetList ts)),
                GOF ((members ?this2)\<lparr>cout := cout (members ?this2) @ simMessages simpdf dsetList ts (n + 1)\<rparr>)
                    (take (nat (n + 1)) (gofArray ?this2)
                      @ map (\<lambda>t. Some (slaveFor (nGof (members ?this2)) (paramSet (members ?this2)) projDeps0 simpdf dsetList t))
                            (accepted simpdf dsetList ts)
                      @ drop (nat (n + 1) + length (accepted simpdf dsetList ts)) (gofArray ?this2))
                    (mpfeArray ?this2))"
        by (rule Cons.IH) (use Cons.prems in \<open>simp_all add: acc nat_add_distrib\<close>)
      have n1: "nat (n + 1) = Suc (nat n)" using Cons.prems by (simp add: nat_add_distrib)
      show ?thesis
        using p Some st ih
        by (simp add: acc slaveFor_def n1 take_Suc_update[OF lt] Let_def)
    qed
  qed
qed


lemma initSimMode_exact:
  assumes "isSimultaneous simpdf" "split data0 = Some dsetList"
  shows "initSimMode this simpdf data0 projDeps0 =
     Inr (GOF ((members this)\<lparr>nGof := int (length (accepted simpdf dsetList (indexCat simpdf))),
                               cout := cout (members this) @ simMessages simpdf dsetList (indexCat simpdf) 0\<rparr>)
              (map (\<lambda>t. Some (slaveFor (int (length (accepted simpdf dsetList (indexCat simpdf))))
                                 (paramSet (members this)) projDeps0 simpdf dsetList t))
                   (accepted simpdf dsetList (indexCat simpdf)))
              (mpfeArray this))"
proof -
  let ?acc = "accepted simpdf dsetList (indexCat simpdf)"
  let ?this1 = "GOF ((members this)\<lparr>nGof := int (length ?acc)\<rparr>) (replicate (length ?acc) None) (mpfeArray this)"
  have "fillGofArray simpdf dsetList projDeps0 (indexCat simpdf) (0, ?this1) =
          Inr (0 + int (length ?acc),
               GOF ((members ?this1)\<lparr>cout := cout (members ?this1) @ simMessages simpdf dsetList (indexCat simpdf) 0\<rparr>)
                   (take (nat 0) (gofArray ?this1)
                      @ map (\<lambda>t. Some (slaveFor (nGof (members ?this1)) (paramSet (members ?this1)) projDeps0 simpdf dsetList t)) ?acc
                      @ drop (nat 0 + length ?acc) (gofArray ?this1))
                   (mpfeArray ?this1))"
    by (rule fill_exact) simp_all
  then show ?thesis using assms
    by (simp add: initSimMode_def countUsed_eq Let_def)
qed

lemma rank_slaveFor:
  "rank (slaveFor cnt params projDeps0 simpdf dsetList t) = 2 + pot (the (getPdf simpdf t))"
  by (simp add: slaveFor_def recursiveRedirectServers_def setSimCount_def create_def
        RooAbsGoodnessOfFit_def rank_eq)

lemma pot_member: "(t, p) \<in> set pm \<Longrightarrow> pot p \<le> sum_list (map (\<lambda>np. pot (snd np)) pm)"
  by (induction pm) auto

lemma pot_getPdf:
  "getPdf simpdf t = Some p \<Longrightarrow> pot p \<le> sum_list (map (\<lambda>np. pot (snd np)) (pdfList simpdf))"
  unfolding getPdf_def by (rule pot_member[of t]) (erule map_of_SomeD)

lemma accepted_getPdf: "t \<in> set (accepted simpdf dsetList ts) \<Longrightarrow> \<exists>p. getPdf simpdf t = Some p"
  by (auto simp: accepted_def)

lemma length_accepted: "length (accepted simpdf dsetList ts) \<le> length ts"
  by (simp add: accepted_def)

lemma pot_simultaneous:
  "isSimultaneous simpdf \<Longrightarrow>
     pot simpdf = length (indexCat simpdf) * (2 + sum_list (map (\<lambda>np. pot (snd np)) (pdfList simpdf)))"
  by (cases simpdf) (simp_all add: isSimultaneous_def)

lemma sum_slaves_le:
  assumes "\<And>t. t \<in> set ts \<Longrightarrow> rank (mk t) \<le> B"
  shows "sum_list (map childRank (map (\<lambda>t. Some (mk t)) ts)) \<le> length ts * B"
  using assms by (induction ts) (auto simp: add_mono)

lemma slave_rank_bound:
  assumes "t \<in> set (accepted simpdf dsetList ts)"
  shows "rank (slaveFor cnt params projDeps0 simpdf dsetList t)
           \<le> 2 + sum_list (map (\<lambda>np. pot (snd np)) (pdfList simpdf))"
proof -
  obtain p where "getPdf simpdf t = Some p" using accepted_getPdf[OF assms] by blast
  then show ?thesis using pot_getPdf[of simpdf t p] by (simp add: rank_slaveFor)
qed

lemma initSimMode_rank:
  assumes "initSimMode this (pdf (members this)) data0 projDeps0 = Inr this'"
  shows "sum_list (map childRank (gofArray this')) \<le> pot (pdf (members this))"
    and "Some c \<in> set (gofArray this') \<Longrightarrow> rank c < 2 + pot (pdf (members this))"
    and "mpfeArray this' = mpfeArray this"
    and "gofOpMode (members this') = gofOpMode (members this)"
    and "pdf (members this') = pdf (members this)"
    and "init (members this') = init (members this)"
proof -
  let ?simpdf = "pdf (members this)"
  let ?S = "sum_list (map (\<lambda>np. pot (snd np)) (pdfList ?simpdf))"
  from assms have sim: "isSimultaneous ?simpdf"
    by (auto simp: initSimMode_def split: if_splits)
  from assms sim obtain dsetList where dl: "split data0 = Some dsetList"
    by (auto simp: initSimMode_def split: option.splits)
  let ?acc = "accepted ?simpdf dsetList (indexCat ?simpdf)"
  note ex = initSimMode_exact[OF sim dl, of this projDeps0]
  from assms ex have arr: "gofArray this' =
      map (\<lambda>t. Some (slaveFor (int (length ?acc)) (paramSet (members this)) projDeps0 ?simpdf dsetList t)) ?acc"
    by auto
  have "sum_list (map childRank (gofArray this')) \<le> length ?acc * (2 + ?S)"
    unfolding arr by (rule sum_slaves_le) (rule slave_rank_bound)
  also have "\<dots> \<le> length (indexCat ?simpdf) * (2 + ?S)"
    by (rule mult_le_mono1) (rule length_accepted)
  finally show "sum_list (map childRank (gofArray this')) \<le> pot ?simpdf"
    by (simp add: pot_simultaneous[OF sim])
  show "mpfeArray this' = mpfeArray this" using assms ex by auto
  show "gofOpMode (members this') = gofOpMode (members this)" using assms ex by auto
  show "pdf (members this') = pdf (members this)" using assms ex by auto
  show "init (members this') = init (members this)" using assms ex by auto
  assume "Some c \<in> set (gofArray this')"
  then obtain t where t: "t \<in> set ?acc"
      and c: "c = slaveFor (int (length ?acc)) (paramSet (members this)) projDeps0 ?simpdf dsetList t"
    unfolding arr by auto
  have "rank c \<le> 2 + ?S" unfolding c using t by (rule slave_rank_bound)
  moreover have "0 < length (indexCat ?simpdf)"
    using t length_accepted[of ?simpdf dsetList "indexCat ?simpdf"] by (cases ?acc) auto
  then have "2 + ?S \<le> length (indexCat ?simpdf) * (2 + ?S)"
    by (cases "length (indexCat ?simpdf)") simp_all
  then have "2 + ?S \<le> pot ?simpdf"
    by (simp only: pot_simultaneous[OF sim])
  ultimately show "rank c < 2 + pot ?simpdf" by simp
qed

subsection \<open>setMPSet\<close>

text \<open>
  \<^verbatim>\<open>initialize()\<close> as it runs when \<^verbatim>\<open>_gofOpMode==SimMaster\<close>, which is the test under which
  \<^verbatim>\<open>setMPSet\<close> calls it: the \<open>MPMaster\<close> branch is not taken. Lemma
  \<open>initialize_SimMaster_eq\<close> below shows that it is \<open>initialize\<close> on such an object.
\<close>

definition initialize_SimMaster :: "RooAbsGoodnessOfFit \<Rightarrow> (bool \<times> RooAbsGoodnessOfFit) result" where
  "initialize_SimMaster this =
     (if init (members this) then Inr (False, this)
      else case initSimMode this (pdf (members this)) (dataset (members this)) (projDeps (members this)) of
             Inl e \<Rightarrow> Inl e
           | Inr this1 \<Rightarrow>
               Inr (False, GOF ((members this1)\<lparr>init := True\<rparr>) (gofArray this1) (mpfeArray this1)))"

lemma initialize_SimMaster_rank:
  assumes "initialize_SimMaster this = Inr (b, this')"
  shows "Some c \<in> set (gofArray this') \<Longrightarrow> rank c < rank this"
    and "rank this' \<le> rank this"
    and "gofOpMode (members this') = gofOpMode (members this)"
    and "init (members this')"
proof -
  show "init (members this')" using assms
    by (auto simp: initialize_SimMaster_def split: if_splits sum.splits)
  show "gofOpMode (members this') = gofOpMode (members this)" using assms
    by (auto simp: initialize_SimMaster_def initSimMode_rank(4) split: if_splits sum.splits)
  show "rank this' \<le> rank this"
  proof (cases "init (members this)")
    case True
    then show ?thesis using assms by (simp add: initialize_SimMaster_def)
  next
    case False
    then obtain this1 where i: "initSimMode this (pdf (members this)) (dataset (members this)) (projDeps (members this)) = Inr this1"
      and t: "this' = GOF ((members this1)\<lparr>init := True\<rparr>) (gofArray this1) (mpfeArray this1)"
      using assms by (auto simp: initialize_SimMaster_def split: sum.splits)
    show ?thesis using initSimMode_rank(1,3)[OF i] False
      by (cases this) (simp add: t rank_eq)
  qed
  assume c: "Some c \<in> set (gofArray this')"
  show "rank c < rank this"
  proof (cases "init (members this)")
    case True
    then show ?thesis using assms c child_rank_less[of c "gofArray this" "members this" "mpfeArray this"]
      by (simp add: initialize_SimMaster_def)
  next
    case False
    then obtain this1 where i: "initSimMode this (pdf (members this)) (dataset (members this)) (projDeps (members this)) = Inr this1"
      and t: "this' = GOF ((members this1)\<lparr>init := True\<rparr>) (gofArray this1) (mpfeArray this1)"
      using assms by (auto simp: initialize_SimMaster_def split: sum.splits)
    show ?thesis using initSimMode_rank(2)[OF i, of c] c False
      by (cases this) (simp add: t rank_eq)
  qed
qed

function setMPSet :: "Int_t \<Rightarrow> Int_t \<Rightarrow> RooAbsGoodnessOfFit \<Rightarrow> RooAbsGoodnessOfFit result" where
  "setMPSet sn ns (GOF f arr mp) =
     (let this = GOF (f\<lparr>setNum := sn, numSets := ns\<rparr>) arr mp in
      if gofOpMode f = SimMaster then
        (case initialize_SimMaster this of
           Inl e \<Rightarrow> Inl e
         | Inr (b, this1) \<Rightarrow>
             (case forChildren (setMPSet sn ns) (nat (nGof (members this1))) (gofArray this1) of
                Inl e \<Rightarrow> Inl e
              | Inr arr2 \<Rightarrow> Inr (GOF (members this1) arr2 (mpfeArray this1))))
      else Inr this)"
  by pat_completeness auto
termination
proof (relation "measure (\<lambda>(sn, ns, this). rank this)")
  show "wf (measure (\<lambda>(sn, ns, this). rank this))" by simp
next
  fix sn ns f arr mp this x2 b this1 c
  assume "this = GOF (f\<lparr>setNum := sn, numSets := ns\<rparr>) arr mp"
    and "initialize_SimMaster this = Inr x2" and "(b, this1) = x2"
    and "Some c \<in> set (gofArray this1)"
  then have "rank c < rank (GOF (f\<lparr>setNum := sn, numSets := ns\<rparr>) arr mp)"
    using initialize_SimMaster_rank(1)[of this b this1 c] by simp
  moreover have "rank (GOF (f\<lparr>setNum := sn, numSets := ns\<rparr>) arr mp) = rank (GOF f arr mp)"
    by (simp add: rank_eq)
  ultimately show "((sn, ns, c), (sn, ns, GOF f arr mp)) \<in> measure (\<lambda>(sn, ns, this). rank this)"
    by simp
qed

lemma forChildren_rank:
  assumes "forChildren g n arr = Inr arr'"
    and "\<And>c c'. Some c \<in> set arr \<Longrightarrow> g c = Inr c' \<Longrightarrow> rank c' \<le> rank c"
  shows "sum_list (map childRank arr') \<le> sum_list (map childRank arr)"
  using assms
proof (induction g n arr arbitrary: arr' rule: forChildren.induct)
  case (4 g n c rest)
  from "4.prems"(1) obtain c' rest' where gc: "g c = Inr c'"
      and r: "forChildren g n rest = Inr rest'" and a: "arr' = Some c' # rest'"
    by (auto split: sum.splits)
  have "sum_list (map childRank rest') \<le> sum_list (map childRank rest)"
    by (rule "4.IH"[OF gc r]) (use "4.prems"(2) in auto)
  moreover have "rank c' \<le> rank c" using "4.prems"(2)[of c c'] gc by simp
  ultimately show ?case by (simp add: a)
qed (auto split: sum.splits)

lemma setMPSet_rank: "setMPSet sn ns this = Inr this' \<Longrightarrow> rank this' \<le> rank this"
proof (induction sn ns this arbitrary: this' rule: setMPSet.induct)
  case (1 sn ns f arr mp)
  let ?me = "GOF (f\<lparr>setNum := sn, numSets := ns\<rparr>) arr mp"
  have r0: "rank ?me = rank (GOF f arr mp)" by (simp add: rank_eq)
  show ?case
  proof (cases "gofOpMode f = SimMaster")
    case False
    then show ?thesis using "1.prems" r0 by (simp add: Let_def)
  next
    case True
    from "1.prems" True obtain b this1 arr2 where
      i: "initialize_SimMaster ?me = Inr (b, this1)"
      and fc: "forChildren (setMPSet sn ns) (nat (nGof (members this1))) (gofArray this1) = Inr arr2"
      and t: "this' = GOF (members this1) arr2 (mpfeArray this1)"
      by (auto simp: Let_def split: sum.splits)
    have "sum_list (map childRank arr2) \<le> sum_list (map childRank (gofArray this1))"
      by (rule forChildren_rank[OF fc]) (rule "1.IH"[OF refl True i refl], simp_all)
    then have "rank this' \<le> rank this1"
      by (cases this1) (simp add: t rank_eq)
    then show ?thesis using initialize_SimMaster_rank(2)[OF i] r0 by simp
  qed
qed

subsection \<open>initMPMode and initialize\<close>

text \<open>
  Modelled from the spec: \<^verbatim>\<open>RooRealMPFE::initialize\<close> marks the front-end initialized
  (and starts its worker unless it runs inline).
\<close>

definition mpfe_initialize :: "'e RooRealMPFE \<Rightarrow> 'e RooRealMPFE" where
  "mpfe_initialize w = MPFE (mpfe_name w) (mpfe_title w) (arg w) (doInline w) True (mpfe_msgs w)"

text \<open>\<^verbatim>\<open>_mpfeArray[i] = new RooRealMPFE(...)\<close>: a write outside the allocated array is a fault.\<close>

definition storeMpfe ::
  "Int_t \<Rightarrow> RooAbsGoodnessOfFit RooRealMPFE \<Rightarrow> RooAbsGoodnessOfFit \<Rightarrow> RooAbsGoodnessOfFit result" where
  "storeMpfe i w this =
     (if 0 \<le> i \<and> nat i < length (mpfeArray this)
      then Inr (GOF (members this) (gofArray this) ((mpfeArray this)[nat i := Some w]))
      else Inl InvalidPointer)"

text \<open>
  The loop of \<^verbatim>\<open>initMPMode\<close> (lines 255-268) over the worker indices. The prototype \<^verbatim>\<open>gof\<close> is
  one object, given the partition \<^verbatim>\<open>(i,_nCPU)\<close>, renamed and wrapped anew at every index; the
  front-end holds the prototype as it is at that moment.
\<close>

fun initMPLoop ::
  "Int_t list \<Rightarrow> RooAbsGoodnessOfFit \<times> RooAbsGoodnessOfFit
     \<Rightarrow> (RooAbsGoodnessOfFit \<times> RooAbsGoodnessOfFit) result" where
  "initMPLoop [] (gof, this) = Inr (gof, this)"
| "initMPLoop (i # is) (gof, this) =
     (case setMPSet i (nCPU (members this)) gof of
        Inl e \<Rightarrow> Inl e
      | Inr gof1 \<Rightarrow>
          (let gof2 = SetName (Form_GOF (GetName (members this)) i) gof1;
               gof3 = SetTitle (Form_GOF (GetTitle (members this)) i) gof2;
               doInline0 = (i = nCPU (members this) - 1);
               this1 = (if \<not> doInline0 then writeCout (StartingServer i) this else this);
               w = MPFE (Form_MPFE (GetName (members this)) i) (Form_MPFE (GetTitle (members this)) i)
                        gof3 doInline0 False []
           in case storeMpfe i (mpfe_initialize w) this1 of
                Inl e \<Rightarrow> Inl e
              | Inr this2 \<Rightarrow> initMPLoop is (gof3, this2)))"

text \<open>\<^verbatim>\<open>initMPMode\<close> (lines 246-271): allocate \<^verbatim>\<open>_nCPU\<close> pointers, create the prototype, run the
  loop for \<^verbatim>\<open>i = 0, ..., _nCPU-1\<close>.\<close>

definition initMPMode ::
  "RooAbsGoodnessOfFit \<Rightarrow> RooAbsPdf \<Rightarrow> RooAbsData \<Rightarrow> RooArgSet \<Rightarrow> RooAbsGoodnessOfFit result" where
  "initMPMode this pdf0 data0 projDeps0 =
     (let this1 = GOF (members this) (gofArray this) (replicate (nat (nCPU (members this))) None);
          gof = create (GetName (members this)) (GetTitle (members this)) pdf0 data0 projDeps0
      in case initMPLoop (map int [0..<nat (nCPU (members this))]) (gof, this1) of
           Inl e \<Rightarrow> Inl e
         | Inr (gof', this2) \<Rightarrow> Inr this2)"

text \<open>\<^verbatim>\<open>initialize\<close> (lines 182-193). The value returned is \<^verbatim>\<open>kFALSE\<close> on both paths.\<close>

definition initialize :: "RooAbsGoodnessOfFit \<Rightarrow> (bool \<times> RooAbsGoodnessOfFit) result" where
  "initialize this =
     (if init (members this) then Inr (False, this)
      else case (if gofOpMode (members this) = MPMaster
                 then initMPMode this (pdf (members this)) (dataset (members this)) (projDeps (members this))
                 else if gofOpMode (members this) = SimMaster
                 then initSimMode this (pdf (members this)) (dataset (members this)) (projDeps (members this))
                 else Inr this) of
             Inl e \<Rightarrow> Inl e
           | Inr this1 \<Rightarrow>
               Inr (False, GOF ((members this1)\<lparr>init := True\<rparr>) (gofArray this1) (mpfeArray this1)))"

lemma initialize_SimMaster_eq:
  "gofOpMode (members this) = SimMaster \<Longrightarrow> initialize this = initialize_SimMaster this"
  by (simp add: initialize_def initialize_SimMaster_def)

lemma rank_SetName [simp]: "rank (SetName s this) = rank this"
  by (cases this) (simp add: SetName_def rank_eq)

lemma rank_SetTitle [simp]: "rank (SetTitle s this) = rank this"
  by (cases this) (simp add: SetTitle_def rank_eq)

lemma initMPLoop_inv:
  assumes "initMPLoop is (gof, this) = Inr (gof', this')"
  shows "members this' = (members this)\<lparr>cout := cout (members this')\<rparr>
       \<and> gofArray this' = gofArray this
       \<and> (\<forall>w. Some w \<in> set (mpfeArray this') \<longrightarrow> Some w \<in> set (mpfeArray this) \<or> rank (arg w) \<le> rank gof)
       \<and> length (mpfeArray this') = length (mpfeArray this)"
  using assms
proof (induction "is" arbitrary: gof this)
  case Nil
  then show ?case by simp
next
  case (Cons i "is")
  let ?n = "nCPU (members this)"
  from Cons.prems obtain gof1 this2 where
      s: "setMPSet i ?n gof = Inr gof1"
      and st: "storeMpfe i (mpfe_initialize (MPFE (Form_MPFE (GetName (members this)) i) (Form_MPFE (GetTitle (members this)) i)
                 (SetTitle (Form_GOF (GetTitle (members this)) i) (SetName (Form_GOF (GetName (members this)) i) gof1))
                 (i = ?n - 1) False []))
               (if i \<noteq> ?n - 1 then writeCout (StartingServer i) this else this) = Inr this2"
      and rest: "initMPLoop is (SetTitle (Form_GOF (GetTitle (members this)) i) (SetName (Form_GOF (GetName (members this)) i) gof1), this2) = Inr (gof', this')"
    by (auto simp: Let_def split: sum.splits)
  let ?gof3 = "SetTitle (Form_GOF (GetTitle (members this)) i) (SetName (Form_GOF (GetName (members this)) i) gof1)"
  let ?this1 = "if i \<noteq> ?n - 1 then writeCout (StartingServer i) this else this"
  let ?w = "mpfe_initialize (MPFE (Form_MPFE (GetName (members this)) i) (Form_MPFE (GetTitle (members this)) i)
                        ?gof3 (i = ?n - 1) False [])"
  have r3: "rank ?gof3 \<le> rank gof" using setMPSet_rank[OF s] by simp
  have f2: "members this2 = members ?this1" "gofArray this2 = gofArray this"
      "mpfeArray this2 = (mpfeArray this)[nat i := Some ?w]"
    using st by (auto simp: storeMpfe_def split: if_splits)
  note ih = Cons.IH[OF rest]
  have f1: "members ?this1 = (members this)\<lparr>cout := cout (members ?this1)\<rparr>" by simp
  have A: "members this' = (members this)\<lparr>cout := cout (members this')\<rparr>"
  proof -
    have "members this' = (members this2)\<lparr>cout := cout (members this')\<rparr>" using ih by simp
    also have "\<dots> = ((members this)\<lparr>cout := cout (members ?this1)\<rparr>)\<lparr>cout := cout (members this')\<rparr>"
      using f1 f2(1) by simp
    finally show ?thesis by simp
  qed
  have B: "gofArray this' = gofArray this" using ih f2(2) by simp
  have D: "length (mpfeArray this') = length (mpfeArray this)" using ih f2(3) by simp
  have C: "Some w \<in> set (mpfeArray this) \<or> rank (arg w) \<le> rank gof" if "Some w \<in> set (mpfeArray this')" for w
  proof -
    from that consider "Some w \<in> set (mpfeArray this2)" | "rank (arg w) \<le> rank ?gof3" using ih by blast
    then show ?thesis
    proof cases
      case 1
      then have "Some w \<in> insert (Some ?w) (set (mpfeArray this))"
        using set_update_subset_insert[of "mpfeArray this" "nat i" "Some ?w"] f2(3) by auto
      then show ?thesis using r3 by (auto simp: mpfe_initialize_def)
    next
      case 2
      then show ?thesis using r3 by simp
    qed
  qed
  show ?case using A B C D by blast
qed

lemma rank_create_nonMP:
  "rank (create name title pdf0 data0 projDeps0) = 2 + pot pdf0"
  by (simp add: create_def RooAbsGoodnessOfFit_def rank_eq)

lemma initMPMode_rank:
  assumes "initMPMode this pdf0 data0 projDeps0 = Inr this'"
  shows "gofArray this' = gofArray this"
    and "Some w \<in> set (mpfeArray this') \<Longrightarrow> rank (arg w) \<le> 2 + pot pdf0"
    and "members this' = (members this)\<lparr>cout := cout (members this')\<rparr>"
proof -
  let ?this1 = "GOF (members this) (gofArray this) (replicate (nat (nCPU (members this))) None)"
  let ?gof = "create (GetName (members this)) (GetTitle (members this)) pdf0 data0 projDeps0"
  from assms obtain gof' where
    l: "initMPLoop (map int [0..<nat (nCPU (members this))]) (?gof, ?this1) = Inr (gof', this')"
    by (auto simp: initMPMode_def Let_def split: sum.splits)
  note inv = initMPLoop_inv[OF l]
  show "gofArray this' = gofArray this" using inv by simp
  show "members this' = (members this)\<lparr>cout := cout (members this')\<rparr>" using inv by simp
  assume "Some w \<in> set (mpfeArray this')"
  then have "Some w \<in> set (mpfeArray ?this1) \<or> rank (arg w) \<le> rank ?gof" using inv by blast
  then show "rank (arg w) \<le> 2 + pot pdf0" by (auto simp: rank_create_nonMP)
qed

lemma initialize_rank:
  assumes "initialize this = Inr (b, this')"
  shows "Some c \<in> set (gofArray this') \<Longrightarrow> rank c < rank this"
    and "Some w \<in> set (mpfeArray this') \<Longrightarrow> rank (arg w) < rank this"
proof -
  consider (ini) "init (members this)"
    | (mp) "\<not> init (members this)" "gofOpMode (members this) = MPMaster"
    | (sim) "\<not> init (members this)" "gofOpMode (members this) = SimMaster"
    | (slave) "\<not> init (members this)" "gofOpMode (members this) = Slave"
    by (cases "gofOpMode (members this)") auto
  then have "(Some c \<in> set (gofArray this') \<longrightarrow> rank c < rank this)
           \<and> (Some w \<in> set (mpfeArray this') \<longrightarrow> rank (arg w) < rank this)"
  proof cases
    case ini
    then have "this' = this" using assms by (simp add: initialize_def)
    then show ?thesis
      using child_rank_less[of c "gofArray this" "members this" "mpfeArray this"]
        worker_rank_less[of w "mpfeArray this" "members this" "gofArray this"] by simp
  next
    case slave
    then have "gofArray this' = gofArray this" "mpfeArray this' = mpfeArray this"
      using assms by (auto simp: initialize_def)
    then show ?thesis
      using child_rank_less[of c "gofArray this" "members this" "mpfeArray this"]
        worker_rank_less[of w "mpfeArray this" "members this" "gofArray this"] by simp
  next
    case sim
    then have i: "initialize_SimMaster this = Inr (b, this')"
      using assms by (simp add: initialize_SimMaster_eq)
    from sim i obtain this1 where
      i1: "initSimMode this (pdf (members this)) (dataset (members this)) (projDeps (members this)) = Inr this1"
      and t: "this' = GOF ((members this1)\<lparr>init := True\<rparr>) (gofArray this1) (mpfeArray this1)"
      by (auto simp: initialize_SimMaster_def split: sum.splits)
    have "mpfeArray this' = mpfeArray this" using initSimMode_rank(3)[OF i1] t by simp
    then show ?thesis
      using initialize_SimMaster_rank(1)[OF i, of c]
        worker_rank_less[of w "mpfeArray this" "members this" "gofArray this"] by simp
  next
    case mp
    then obtain this1 where
      i1: "initMPMode this (pdf (members this)) (dataset (members this)) (projDeps (members this)) = Inr this1"
      and t: "this' = GOF ((members this1)\<lparr>init := True\<rparr>) (gofArray this1) (mpfeArray this1)"
      using assms by (auto simp: initialize_def split: sum.splits)
    have g: "gofArray this' = gofArray this" using initMPMode_rank(1)[OF i1] t by simp
    have r: "3 + pot (pdf (members this)) \<le> rank this" using mp by (cases this) (simp add: rank_eq)
    have "Some w \<in> set (mpfeArray this') \<Longrightarrow> rank (arg w) < rank this"
      using initMPMode_rank(2)[OF i1, of w] t r by simp
    then show ?thesis
      using g child_rank_less[of c "gofArray this" "members this" "mpfeArray this"] by auto
  qed
  then show "Some c \<in> set (gofArray this') \<Longrightarrow> rank c < rank this"
    and "Some w \<in> set (mpfeArray this') \<Longrightarrow> rank (arg w) < rank this" by blast+
qed

subsection \<open>evaluate\<close>

text \<open>
  Modelled from the spec: \<^verbatim>\<open>combinedValue(array,n)\<close> reads the value of each of the first \<open>n\<close>
  elements of the array, in index order, and combines them. Reading the value of a child
  engine runs its \<^verbatim>\<open>evaluate\<close>; a null pointer among them is a fault.
\<close>

fun getVals ::
  "('a \<Rightarrow> ('v \<times> 'a) result) \<Rightarrow> nat \<Rightarrow> 'a option list \<Rightarrow> ('v list \<times> 'a option list) result" where
  "getVals g 0 arr = Inr ([], arr)"
| "getVals g (Suc n) [] = Inl InvalidPointer"
| "getVals g (Suc n) (None # rest) = Inl InvalidPointer"
| "getVals g (Suc n) (Some c # rest) =
     (case g c of
        Inl e \<Rightarrow> Inl e
      | Inr (v, c') \<Rightarrow>
          (case getVals g n rest of
             Inl e \<Rightarrow> Inl e
           | Inr (vs, rest') \<Rightarrow> Inr (v # vs, Some c' # rest')))"

lemma getVals_cong [fundef_cong]:
  assumes "n = n'" "arr = arr'" "\<And>c. Some c \<in> set arr' \<Longrightarrow> g c = g' c"
  shows "getVals g n arr = getVals g' n' arr'"
proof -
  have "(\<And>c. Some c \<in> set arr \<Longrightarrow> g c = g' c) \<Longrightarrow> getVals g n arr = getVals g' n arr"
    by (induction g n arr rule: getVals.induct) (auto split: sum.splits)
  then show ?thesis using assms by simp
qed

text \<open>\<^verbatim>\<open>for (i=0 ; i<_nCPU ; i++) _mpfeArray[i]->f(...)\<close>: no test for a null pointer.\<close>

fun forWorkers ::
  "('a \<Rightarrow> 'a result) \<Rightarrow> nat \<Rightarrow> 'a option list \<Rightarrow> 'a option list result" where
  "forWorkers g 0 arr = Inr arr"
| "forWorkers g (Suc n) [] = Inl InvalidPointer"
| "forWorkers g (Suc n) (None # rest) = Inl InvalidPointer"
| "forWorkers g (Suc n) (Some w # rest) =
     (case g w of
        Inl e \<Rightarrow> Inl e
      | Inr w' \<Rightarrow> (case forWorkers g n rest of Inl e \<Rightarrow> Inl e | Inr rest' \<Rightarrow> Inr (Some w' # rest')))"

lemma forWorkers_cong [fundef_cong]:
  assumes "n = n'" "arr = arr'" "\<And>w. Some w \<in> set arr' \<Longrightarrow> g w = g' w"
  shows "forWorkers g n arr = forWorkers g' n' arr'"
proof -
  have "(\<And>w. Some w \<in> set arr \<Longrightarrow> g w = g' w) \<Longrightarrow> forWorkers g n arr = forWorkers g' n arr"
    by (induction g n arr rule: forWorkers.induct) (auto split: sum.splits)
  then show ?thesis using assms by simp
qed

text \<open>
  Modelled from the spec: the operations of \<^verbatim>\<open>RooRealMPFE\<close>. \<^verbatim>\<open>calculate\<close> starts the
  computation and returns at once; reading the front-end's value gives the value of the
  wrapped engine, whose state the evaluation may change; \<^verbatim>\<open>constOptimize\<close> is passed on to
  the wrapped engine.
\<close>

definition mpfe_calculate :: "'e RooRealMPFE \<Rightarrow> 'e RooRealMPFE result" where
  "mpfe_calculate w = Inr w"

definition mpfe_getVal ::
  "('e \<Rightarrow> ('v \<times> 'e) result) \<Rightarrow> 'e RooRealMPFE \<Rightarrow> ('v \<times> 'e RooRealMPFE) result" where
  "mpfe_getVal ev w =
     (case ev (arg w) of
        Inl e \<Rightarrow> Inl e
      | Inr (v, a) \<Rightarrow> Inr (v, MPFE (mpfe_name w) (mpfe_title w) a (doInline w) (mpfe_init w) (mpfe_msgs w)))"

definition mpfe_constOptimize ::
  "('e \<Rightarrow> 'e result) \<Rightarrow> ConstOpCode \<Rightarrow> 'e RooRealMPFE \<Rightarrow> 'e RooRealMPFE result" where
  "mpfe_constOptimize co opcode w =
     (case co (arg w) of
        Inl e \<Rightarrow> Inl e
      | Inr a \<Rightarrow> Inr (MPFE (mpfe_name w) (mpfe_title w) a (doInline w) (mpfe_init w) (mpfe_msgs w @ [opcode])))"

lemma mpfe_getVal_cong [fundef_cong]:
  "w = w' \<Longrightarrow> (ev (arg w') = ev' (arg w')) \<Longrightarrow> mpfe_getVal ev w = mpfe_getVal ev' w'"
  by (simp add: mpfe_getVal_def)

lemma mpfe_constOptimize_cong [fundef_cong]:
  "w = w' \<Longrightarrow> opcode = opcode' \<Longrightarrow> (co (arg w') = co' (arg w'))
     \<Longrightarrow> mpfe_constOptimize co opcode w = mpfe_constOptimize co' opcode' w'"
  by (simp add: mpfe_constOptimize_def)

lemma forWorkers_calculate: "forWorkers mpfe_calculate n mp = Inr mp' \<Longrightarrow> mp' = mp"
  by (induction "mpfe_calculate :: 'a RooRealMPFE \<Rightarrow> 'a RooRealMPFE result" n mp arbitrary: mp'
        rule: forWorkers.induct)
     (auto simp: mpfe_calculate_def split: sum.splits)

lemma initialize_if_init:
  "(if \<not> init (members this) then initialize this else Inr (False, this)) = initialize this"
  by (simp add: initialize_def)

text \<open>
  \<^verbatim>\<open>evaluate\<close> (lines 146-178). The function is \<^verbatim>\<open>const\<close> and initializes the object through
  a \<^verbatim>\<open>const_cast\<close>, so the object is part of the result.
\<close>

function evaluate :: "'v gof_class \<Rightarrow> RooAbsGoodnessOfFit \<Rightarrow> ('v \<times> RooAbsGoodnessOfFit) result" where
  "evaluate K this =
     (case (if \<not> init (members this) then initialize this else Inr (False, this)) of
        Inl e \<Rightarrow> Inl e
      | Inr (b, this1) \<Rightarrow>
          if gofOpMode (members this1) = SimMaster then
            (case getVals (evaluate K) (nat (nGof (members this1))) (gofArray this1) of
               Inl e \<Rightarrow> Inl e
             | Inr (vals, arr1) \<Rightarrow>
                 Inr (combinedValue K vals, GOF (members this1) arr1 (mpfeArray this1)))
          else if gofOpMode (members this1) = MPMaster then
            (case forWorkers mpfe_calculate (nat (nCPU (members this1))) (mpfeArray this1) of
               Inl e \<Rightarrow> Inl e
             | Inr mp1 \<Rightarrow>
                 (case getVals (mpfe_getVal (evaluate K)) (nat (nCPU (members this1))) mp1 of
                    Inl e \<Rightarrow> Inl e
                  | Inr (vals, mp2) \<Rightarrow>
                      Inr (combinedValue K vals, GOF (members this1) (gofArray this1) mp2)))
          else
            if numSets (members this1) = 0 then Inl DivideByZero
            else Inr (evaluatePartition K this1
                        (nFirst (nEvents (members this1)) (setNum (members this1)) (numSets (members this1)))
                        (nLast (nEvents (members this1)) (setNum (members this1)) (numSets (members this1))),
                      this1))"
  by pat_completeness auto
termination
proof (relation "measure (\<lambda>(K, this). rank this)")
  show "wf (measure (\<lambda>(K :: 'a gof_class, this). rank this))" by simp
next
  fix K :: "'a gof_class" and this b x y c
  assume "(if \<not> init (members this) then initialize this else Inr (False, this)) = Inr b"
    and "(x, y) = b" and "Some c \<in> set (gofArray y)"
  then have "rank c < rank this"
    using initialize_rank(1)[of this x y c] by (simp add: initialize_if_init)
  then show "((K, c), K, this) \<in> measure (\<lambda>(K, this). rank this)" by simp
next
  fix K :: "'a gof_class" and this b x y ba c
  assume "(if \<not> init (members this) then initialize this else Inr (False, this)) = Inr b"
    and "(x, y) = b"
    and "forWorkers mpfe_calculate (nat (nCPU (members y))) (mpfeArray y) = Inr ba"
    and "Some c \<in> set ba"
  then have "rank (arg c) < rank this"
    using initialize_rank(2)[of this x y c] forWorkers_calculate[of "nat (nCPU (members y))" "mpfeArray y" ba]
    by (simp add: initialize_if_init)
  then show "((K, arg c), K, this) \<in> measure (\<lambda>(K, this). rank this)" by simp
qed

subsection \<open>constOptimize and redirectServersHook\<close>

text \<open>\<^verbatim>\<open>constOptimize\<close> (lines 214-228).\<close>

function constOptimize :: "ConstOpCode \<Rightarrow> RooAbsGoodnessOfFit \<Rightarrow> RooAbsGoodnessOfFit result" where
  "constOptimize opcode this =
     (case initialize this of
        Inl e \<Rightarrow> Inl e
      | Inr (b, this1) \<Rightarrow>
          if gofOpMode (members this1) = SimMaster then
            (case forChildren (constOptimize opcode) (nat (nGof (members this1))) (gofArray this1) of
               Inl e \<Rightarrow> Inl e
             | Inr arr1 \<Rightarrow> Inr (GOF (members this1) arr1 (mpfeArray this1)))
          else if gofOpMode (members this1) = MPMaster then
            (case forWorkers (mpfe_constOptimize (constOptimize opcode) opcode)
                    (nat (nCPU (members this1))) (mpfeArray this1) of
               Inl e \<Rightarrow> Inl e
             | Inr mp1 \<Rightarrow> Inr (GOF (members this1) (gofArray this1) mp1))
          else Inr this1)"
  by pat_completeness auto
termination
proof (relation "measure (\<lambda>(opcode, this). rank this)")
  show "wf (measure (\<lambda>(opcode :: ConstOpCode, this). rank this))" by simp
next
  fix opcode :: ConstOpCode and this b x y c
  assume "initialize this = Inr b" and "(x, y) = b" and "Some c \<in> set (gofArray y)"
  then have "rank c < rank this" using initialize_rank(1)[of this x y c] by simp
  then show "((opcode, c), opcode, this) \<in> measure (\<lambda>(opcode, this). rank this)" by simp
next
  fix opcode :: ConstOpCode and this b x y c
  assume "initialize this = Inr b" and "(x, y) = b" and "Some c \<in> set (mpfeArray y)"
  then have "rank (arg c) < rank this" using initialize_rank(2)[of this x y c] by simp
  then show "((opcode, arg c), opcode, this) \<in> measure (\<lambda>(opcode, this). rank this)" by simp
qed

text \<open>
  \<^verbatim>\<open>redirectServersHook\<close> (lines 197-211). The \<open>MPMaster\<close> branch of the source is empty but
  for the comment \<^verbatim>\<open>// WVE implement this\<close>.
\<close>

definition redirectServersHook ::
  "RooArgSet \<Rightarrow> bool \<Rightarrow> bool \<Rightarrow> bool \<Rightarrow> RooAbsGoodnessOfFit \<Rightarrow> (bool \<times> RooAbsGoodnessOfFit) result" where
  "redirectServersHook newServerList mustReplaceAll nameChange isRecursive this =
     (if gofOpMode (members this) = SimMaster then
        (case forChildren (\<lambda>c. Inr (recursiveRedirectServers newServerList mustReplaceAll nameChange c))
                (nat (nGof (members this))) (gofArray this) of
           Inl e \<Rightarrow> Inl e
         | Inr arr1 \<Rightarrow> Inr (False, GOF (members this) arr1 (mpfeArray this)))
      else if gofOpMode (members this) = MPMaster then Inr (False, this)
      else Inr (False, this))"

subsection \<open>The copy constructor\<close>

text \<open>
  \<^verbatim>\<open>for (i=0 ; i<n ; i++) { array[i] = other.array[i]->Clone() ; }\<close> into a new array of \<open>n\<close>
  pointers: every one of the first \<open>n\<close> elements of the other array is dereferenced.
\<close>

fun cloneAll :: "('a \<Rightarrow> 'a result) \<Rightarrow> nat \<Rightarrow> 'a option list \<Rightarrow> 'a option list result" where
  "cloneAll g 0 arr = Inr []"
| "cloneAll g (Suc n) [] = Inl InvalidPointer"
| "cloneAll g (Suc n) (None # rest) = Inl InvalidPointer"
| "cloneAll g (Suc n) (Some c # rest) =
     (case g c of
        Inl e \<Rightarrow> Inl e
      | Inr c' \<Rightarrow> (case cloneAll g n rest of Inl e \<Rightarrow> Inl e | Inr rest' \<Rightarrow> Inr (Some c' # rest')))"

lemma cloneAll_cong [fundef_cong]:
  assumes "n = n'" "arr = arr'" "\<And>c. Some c \<in> set arr' \<Longrightarrow> g c = g' c"
  shows "cloneAll g n arr = cloneAll g' n' arr'"
proof -
  have "(\<And>c. Some c \<in> set arr \<Longrightarrow> g c = g' c) \<Longrightarrow> cloneAll g n arr = cloneAll g' n arr"
    by (induction g n arr rule: cloneAll.induct) (auto split: sum.splits)
  then show ?thesis using assms by simp
qed

text \<open>
  Modelled from the spec: \<^verbatim>\<open>Clone()\<close> of an engine runs its copy constructor, and \<^verbatim>\<open>Clone()\<close>
  of a front-end copies the front-end with the engine it wraps.
\<close>

definition mpfe_Clone :: "('e \<Rightarrow> 'e result) \<Rightarrow> 'e RooRealMPFE \<Rightarrow> 'e RooRealMPFE result" where
  "mpfe_Clone cl w =
     (case cl (arg w) of
        Inl e \<Rightarrow> Inl e
      | Inr a \<Rightarrow> Inr (MPFE (mpfe_name w) (mpfe_title w) a (doInline w) (mpfe_init w) (mpfe_msgs w)))"

lemma mpfe_Clone_cong [fundef_cong]:
  "w = w' \<Longrightarrow> (cl (arg w') = cl' (arg w')) \<Longrightarrow> mpfe_Clone cl w = mpfe_Clone cl' w'"
  by (simp add: mpfe_Clone_def)

text \<open>
  The copy constructor (lines 86-119). \<^verbatim>\<open>operMode()\<close> is the accessor of \<^verbatim>\<open>_gofOpMode\<close>. The
  members \<^verbatim>\<open>_nGof\<close>, \<^verbatim>\<open>_gofArray\<close> and \<^verbatim>\<open>_mpfeArray\<close> are set only in the branch of their mode;
  elsewhere the source leaves them indeterminate and never reads them, and the copy
  holds 0 and an empty array. The copy has printed nothing and received no call.
\<close>

function RooAbsGoodnessOfFit_copy :: "RooAbsGoodnessOfFit \<Rightarrow> RooAbsGoodnessOfFit result" where
  "RooAbsGoodnessOfFit_copy other =
     (let f = \<lparr> GetName = GetName (members other), GetTitle = GetTitle (members other),
                 paramSet = paramSet (members other),
                 pdf = pdf (members other), dataset = dataset (members other),
                 projDeps = projDeps (members other),
                 simCount = simCount (members other),
                 nGof = 0, nCPU = nCPU (members other),
                 gofOpMode = gofOpMode (members other),
                 setNum = setNum (members other), numSets = numSets (members other),
                 init = init (members other), nEvents = nEvents (members other),
                 cout = [], redirects = [] \<rparr>
      in case (if gofOpMode f = SimMaster
               then (case cloneAll RooAbsGoodnessOfFit_copy (nat (nGof (members other))) (gofArray other) of
                       Inl e \<Rightarrow> Inl e
                     | Inr arr1 \<Rightarrow> Inr (GOF (f\<lparr>nGof := nGof (members other)\<rparr>) arr1 []))
               else Inr (GOF f [] [])) of
           Inl e \<Rightarrow> Inl e
         | Inr this1 \<Rightarrow>
             if gofOpMode f = MPMaster
             then (case cloneAll (mpfe_Clone RooAbsGoodnessOfFit_copy) (nat (nCPU (members other))) (mpfeArray other) of
                     Inl e \<Rightarrow> Inl e
                   | Inr mp1 \<Rightarrow> Inr (GOF (members this1) (gofArray this1) mp1))
             else Inr this1)"
  by pat_completeness auto
termination
proof (relation "measure rank")
  show "wf (measure rank)" by simp
next
  fix other c
  assume "Some c \<in> set (gofArray other)"
  then show "(c, other) \<in> measure rank"
    using child_rank_less[of c "gofArray other" "members other" "mpfeArray other"] by simp
next
  fix other c
  assume "Some c \<in> set (mpfeArray other)"
  then show "(arg c, other) \<in> measure rank"
    using worker_rank_less[of c "mpfeArray other" "members other" "gofArray other"] by simp
qed

section \<open>Properties\<close>

declare evaluate.simps [simp del]
declare constOptimize.simps [simp del]
declare RooAbsGoodnessOfFit_copy.simps [simp del]

subsection \<open>The partition of the events in Slave mode\<close>

lemma wrap32_id: "- 2147483648 \<le> x \<Longrightarrow> x < 2147483648 \<Longrightarrow> wrap32 x = x"
  by (simp add: wrap32_def)

lemma cdiv_nonneg: "0 \<le> a \<Longrightarrow> 0 < b \<Longrightarrow> cdiv a b = a div b"
  by (simp add: cdiv_def)

lemma product_in_range:
  assumes "0 \<le> nEv" "0 \<le> k" "k \<le> ns" "nEv * ns \<le> 2147483647"
  shows "0 \<le> nEv * k" and "nEv * k \<le> (2147483647::int)"
proof -
  show "0 \<le> nEv * k" using assms by simp
  have "nEv * k \<le> nEv * ns" using assms by (simp add: mult_left_mono)
  then show "nEv * k \<le> 2147483647" using assms by linarith
qed

lemma quotient_in_range:
  assumes "0 \<le> (a::int)" "a \<le> 2147483647" "1 \<le> ns"
  shows "0 \<le> a div ns" and "a div ns \<le> 2147483647"
proof -
  show "0 \<le> a div ns" using assms by (simp add: pos_imp_zdiv_nonneg_iff)
  have "a div ns \<le> a div 1" using assms by (intro zdiv_mono2) simp_all
  then show "a div ns \<le> 2147483647" using assms by simp
qed

lemma wrapped_quotient:
  assumes "0 \<le> a" "a \<le> 2147483647" "1 \<le> ns"
  shows "wrap32 (cdiv (wrap32 a) ns) = a div ns"
proof -
  have w1: "wrap32 a = a" by (rule wrap32_id) (use assms in linarith)+
  have c: "cdiv a ns = a div ns" by (rule cdiv_nonneg) (use assms in linarith)+
  note q = quotient_in_range[OF assms]
  have w2: "wrap32 (a div ns) = a div ns" by (rule wrap32_id) (use q in linarith)+
  show ?thesis by (simp only: w1 c w2)
qed

lemma nFirst_exact:
  assumes "0 \<le> nEv" "1 \<le> ns" "0 \<le> sn" "sn \<le> ns" "nEv * ns \<le> 2147483647"
  shows "nFirst nEv sn ns = (nEv * sn) div ns"
  unfolding nFirst_def
  by (rule wrapped_quotient[OF product_in_range[OF assms(1) assms(3) assms(4) assms(5)] assms(2)])

lemma nLast_exact:
  assumes "0 \<le> nEv" "1 \<le> ns" "0 \<le> sn" "sn < ns" "ns \<le> 2147483647" "nEv * ns \<le> 2147483647"
  shows "nLast nEv sn ns = (nEv * (sn + 1)) div ns"
proof -
  have s: "wrap32 (sn + 1) = sn + 1" by (rule wrap32_id) (use assms in linarith)+
  have "0 \<le> sn + 1" "sn + 1 \<le> ns" using assms by simp_all
  note p = product_in_range[OF assms(1) this assms(6)]
  show ?thesis unfolding nLast_def s by (rule wrapped_quotient[OF p assms(2)])
qed

lemma bound_mono:
  assumes "0 \<le> (nEv::int)" "1 \<le> ns" "j \<le> k"
  shows "(nEv * j) div ns \<le> (nEv * k) div ns"
proof -
  have "nEv * j \<le> nEv * k" using assms by (simp add: mult_left_mono)
  then show ?thesis using assms by (simp add: zdiv_mono1)
qed

lemma slices_union:
  fixes nEv ns :: int
  assumes "0 \<le> nEv" "1 \<le> ns"
  shows "(\<Union>s\<in>{0..<int m}. {(nEv * s) div ns ..< (nEv * (s + 1)) div ns}) = {0 ..< (nEv * int m) div ns}"
proof (induction m)
  case 0
  then show ?case by simp
next
  case (Suc m)
  have split: "{0..<int (Suc m)} = insert (int m) {0..<int m}" by auto
  have le1: "0 \<le> (nEv * int m) div ns"
    using assms by (simp add: pos_imp_zdiv_nonneg_iff)
  have le2: "(nEv * int m) div ns \<le> (nEv * (int m + 1)) div ns"
    using bound_mono[OF assms, of "int m" "int m + 1"] by simp
  have "{0 ..< (nEv * int m) div ns} \<union> {(nEv * int m) div ns ..< (nEv * (int m + 1)) div ns}
          = {0 ..< (nEv * (int m + 1)) div ns}"
    using le1 le2 by auto
  then show ?case unfolding split using Suc.IH
    by (simp add: Un_commute add.commute)
qed

lemma partition_cover:
  fixes nEv ns :: int
  assumes "0 \<le> nEv" "1 \<le> ns" "ns \<le> 2147483647" "nEv * ns \<le> 2147483647"
  shows "(\<Union>s\<in>{0..<ns}. {nFirst nEv s ns ..< nLast nEv s ns}) = {0..<nEv}"
proof -
  have "(\<Union>s\<in>{0..<ns}. {nFirst nEv s ns ..< nLast nEv s ns})
        = (\<Union>s\<in>{0..<ns}. {(nEv * s) div ns ..< (nEv * (s + 1)) div ns})"
    using assms by (intro SUP_cong refl) (simp add: nFirst_exact nLast_exact)
  also have "\<dots> = {0 ..< (nEv * int (nat ns)) div ns}"
    using slices_union[OF assms(1,2), of "nat ns"] assms by simp
  also have "\<dots> = {0..<nEv}" using assms by simp
  finally show ?thesis .
qed

lemma partition_disjoint:
  fixes nEv ns :: int
  assumes "0 \<le> nEv" "1 \<le> ns" "ns \<le> 2147483647" "nEv * ns \<le> 2147483647"
    and "0 \<le> s" "s < s'" "s' < ns"
  shows "{nFirst nEv s ns ..< nLast nEv s ns} \<inter> {nFirst nEv s' ns ..< nLast nEv s' ns} = {}"
proof -
  have "nLast nEv s ns = (nEv * (s + 1)) div ns" using assms by (simp add: nLast_exact)
  moreover have "nFirst nEv s' ns = (nEv * s') div ns" using assms by (simp add: nFirst_exact)
  moreover have "(nEv * (s + 1)) div ns \<le> (nEv * s') div ns"
    using assms by (intro bound_mono) simp_all
  ultimately show ?thesis by auto
qed

lemma evaluate_Slave:
  assumes "gofOpMode (members this) = Slave" "numSets (members this) \<noteq> 0"
  shows "evaluate K this =
           Inr (evaluatePartition K (GOF ((members this)\<lparr>init := True\<rparr>) (gofArray this) (mpfeArray this))
                  (nFirst (nEvents (members this)) (setNum (members this)) (numSets (members this)))
                  (nLast (nEvents (members this)) (setNum (members this)) (numSets (members this))),
                GOF ((members this)\<lparr>init := True\<rparr>) (gofArray this) (mpfeArray this))"
proof (cases "init (members this)")
  case True
  then have "GOF ((members this)\<lparr>init := True\<rparr>) (gofArray this) (mpfeArray this) = this"
    by (cases this) simp
  then show ?thesis using assms True by (subst evaluate.simps) simp
next
  case False
  then show ?thesis using assms by (subst evaluate.simps) (simp add: initialize_def)
qed

text \<open>
  Claim C1, as amended. Let the number of events \<open>nEv \<ge> 0\<close> and the number of sets
  \<open>1 \<le> ns\<close> be such that \<open>nEv * ns\<close> fits \<^verbatim>\<open>Int_t\<close> (it is at most 2147483647). Then for every
  \<open>0 \<le> sn < ns\<close> a Slave-mode \<^verbatim>\<open>evaluate()\<close> with \<^verbatim>\<open>_nEvents = nEv\<close>, \<^verbatim>\<open>_setNum = sn\<close>,
  \<^verbatim>\<open>_numSets = ns\<close> returns \<^verbatim>\<open>evaluatePartition(nFirst,nLast)\<close> with
  \<open>nFirst = nEv * sn div ns\<close> and \<open>nLast = nEv * (sn + 1) div ns\<close>; the first slice starts at 0,
  the last one ends at \<open>nEv\<close>, every slice starts where the one before it ends, and the
  slices \<open>[nFirst, nLast)\<close> for \<open>sn = 0, ..., ns - 1\<close> are pairwise disjoint and cover
  \<open>[0, nEv)\<close> exactly.
\<close>

theorem C1_partition_cover:
  fixes nEv ns :: int
  assumes "0 \<le> nEv" "1 \<le> ns" "ns \<le> 2147483647" "nEv * ns \<le> 2147483647"
  shows "(\<forall>K this. gofOpMode (members this) = Slave \<and> nEvents (members this) = nEv
              \<and> numSets (members this) = ns
              \<and> 0 \<le> setNum (members this) \<and> setNum (members this) < ns \<longrightarrow>
            evaluate K this =
              Inr (evaluatePartition K (GOF ((members this)\<lparr>init := True\<rparr>) (gofArray this) (mpfeArray this))
                     (nEv * setNum (members this) div ns)
                     (nEv * (setNum (members this) + 1) div ns),
                   GOF ((members this)\<lparr>init := True\<rparr>) (gofArray this) (mpfeArray this)))
       \<and> (\<forall>sn. 0 \<le> sn \<and> sn < ns \<longrightarrow>
              nFirst nEv sn ns = nEv * sn div ns \<and> nLast nEv sn ns = nEv * (sn + 1) div ns
            \<and> nFirst nEv sn ns \<le> nLast nEv sn ns)
       \<and> nFirst nEv 0 ns = 0
       \<and> nLast nEv (ns - 1) ns = nEv
       \<and> (\<forall>sn. 1 \<le> sn \<and> sn < ns \<longrightarrow> nFirst nEv sn ns = nLast nEv (sn - 1) ns)
       \<and> (\<Union>sn\<in>{0..<ns}. {nFirst nEv sn ns ..< nLast nEv sn ns}) = {0..<nEv}
       \<and> (\<forall>sn sn'. 0 \<le> sn \<and> sn < sn' \<and> sn' < ns \<longrightarrow>
              {nFirst nEv sn ns ..< nLast nEv sn ns} \<inter> {nFirst nEv sn' ns ..< nLast nEv sn' ns} = {})"
proof -
  have ex: "nFirst nEv sn ns = nEv * sn div ns \<and> nLast nEv sn ns = nEv * (sn + 1) div ns"
    if "0 \<le> sn" "sn < ns" for sn
    using assms that by (simp add: nFirst_exact nLast_exact)
  have A: "evaluate K this =
              Inr (evaluatePartition K (GOF ((members this)\<lparr>init := True\<rparr>) (gofArray this) (mpfeArray this))
                     (nEv * setNum (members this) div ns)
                     (nEv * (setNum (members this) + 1) div ns),
                   GOF ((members this)\<lparr>init := True\<rparr>) (gofArray this) (mpfeArray this))"
    if "gofOpMode (members this) = Slave" "nEvents (members this) = nEv" "numSets (members this) = ns"
       "0 \<le> setNum (members this)" "setNum (members this) < ns"
    for K :: "'v gof_class" and this
  proof -
    have "numSets (members this) \<noteq> 0" using that assms by simp
    from evaluate_Slave[OF that(1) this, of K] show ?thesis
      using ex[OF that(4,5)] that(2,3) by simp
  qed
  have B: "nFirst nEv sn ns \<le> nLast nEv sn ns" if "0 \<le> sn" "sn < ns" for sn
    using ex[OF that] bound_mono[OF assms(1,2), of sn "sn + 1"] by simp
  have C: "nFirst nEv 0 ns = 0" using assms by (simp add: nFirst_exact)
  have D: "nLast nEv (ns - 1) ns = nEv" using assms by (simp add: nLast_exact)
  have E: "nFirst nEv sn ns = nLast nEv (sn - 1) ns" if "1 \<le> sn" "sn < ns" for sn
    using assms that by (simp add: nFirst_exact nLast_exact)
  note F = partition_cover[OF assms]
  have G: "{nFirst nEv sn ns ..< nLast nEv sn ns} \<inter> {nFirst nEv sn' ns ..< nLast nEv sn' ns} = {}"
    if "0 \<le> sn" "sn < sn'" "sn' < ns" for sn sn'
    using partition_disjoint[OF assms that] .
  show ?thesis
    apply (intro conjI allI impI)
    subgoal for K this using A by blast
    subgoal for sn using ex by blast
    subgoal for sn using ex by blast
    subgoal for sn using B by blast
    subgoal by (rule C)
    subgoal by (rule D)
    subgoal for sn using E by blast
    subgoal by (rule F)
    subgoal for sn sn' using G by blast
    done
qed

text \<open>A Slave engine over ten events, told to evaluate set 1 of 3.\<close>

definition tenEvents :: RooAbsGoodnessOfFit where
  "tenEvents = GOF ((members (RooAbsGoodnessOfFit (TString ''nll'') (TString ''nll'') (PlainPdf [])
                       (RooAbsData 10 None) [] 1))\<lparr>setNum := 1, numSets := 3\<rparr>) [] []"

text \<open>A subclass whose partition evaluator returns the bounds it is called with.\<close>

definition boundsClass :: "(Int_t \<times> Int_t) gof_class" where
  "boundsClass = \<lparr> evaluatePartition = (\<lambda>this a b. (a, b)), combinedValue = (\<lambda>vs. (0, 0)) \<rparr>"

theorem C1_partition_cover_witness:
  "map_sum id fst (evaluate boundsClass tenEvents) = Inr (3, 6)
   \<and> nFirst 10 0 3 = 0 \<and> nLast 10 0 3 = 3 \<and> nFirst 10 1 3 = 3 \<and> nLast 10 1 3 = 6
   \<and> nFirst 10 2 3 = 6 \<and> nLast 10 2 3 = 10
   \<and> (\<Union>sn\<in>{0..<3}. {nFirst 10 sn 3 ..< nLast 10 sn 3}) = {0..<10::int}
   \<and> {nFirst 10 0 3 ..< nLast 10 0 3} \<inter> {nFirst 10 2 3 ..< nLast 10 2 3} = {}"
proof -
  have h: "(0::int) \<le> 10" "(1::int) \<le> 3" "(3::int) \<le> 2147483647" "(10::int) * 3 \<le> 2147483647"
    by simp_all
  note t = C1_partition_cover[OF h]
  have m: "gofOpMode (members tenEvents) = Slave \<and> nEvents (members tenEvents) = 10
         \<and> numSets (members tenEvents) = 3 \<and> 0 \<le> setNum (members tenEvents)
         \<and> setNum (members tenEvents) < 3"
    by (simp add: tenEvents_def RooAbsGoodnessOfFit_def isSimultaneous_def)
  have e: "map_sum id fst (evaluate boundsClass tenEvents) = Inr (3, 6)"
    using t[THEN conjunct1, rule_format, OF m, of boundsClass]
    by (simp add: boundsClass_def tenEvents_def)
  have b: "nFirst 10 0 3 = 0 \<and> nLast 10 0 3 = 3 \<and> nFirst 10 1 3 = 3 \<and> nLast 10 1 3 = 6
         \<and> nFirst 10 2 3 = 6 \<and> nLast 10 2 3 = 10"
    using t[THEN conjunct2, THEN conjunct1, rule_format, of 0]
      t[THEN conjunct2, THEN conjunct1, rule_format, of 1]
      t[THEN conjunct2, THEN conjunct1, rule_format, of 2] by simp
  have c: "(\<Union>sn\<in>{0..<3}. {nFirst 10 sn 3 ..< nLast 10 sn 3}) = {0..<10::int}"
    using t by blast
  have d0: "\<forall>sn sn'. 0 \<le> sn \<and> sn < sn' \<and> sn' < 3 \<longrightarrow>
              {nFirst 10 sn 3 ..< nLast 10 sn 3} \<inter> {nFirst 10 sn' 3 ..< nLast 10 sn' 3} = {}"
    using t by (elim conjE)
  have d: "{nFirst 10 0 3 ..< nLast 10 0 3} \<inter> {nFirst 10 2 3 ..< nLast 10 2 3} = {}"
    by (rule d0[rule_format]) simp
  show ?thesis using e b c d by blast
qed

text \<open>
  The claim as stated, for every \<open>nEvents \<ge> 0\<close>, fails: with 1073741824 events and two
  sets the product \<^verbatim>\<open>_nEvents * (_setNum+1)\<close> of the last set leaves \<^verbatim>\<open>Int_t\<close>, and the last
  slice \<open>[536870912, - 1073741824)\<close> does not end at the number of events.
\<close>

definition manyEvents :: RooAbsGoodnessOfFit where
  "manyEvents = GOF ((members (RooAbsGoodnessOfFit (TString ''nll'') (TString ''nll'') (PlainPdf [])
                       (RooAbsData 1073741824 None) [] 1))\<lparr>setNum := 1, numSets := 2\<rparr>) [] []"

theorem C1_counterexample:
  "gofOpMode (members manyEvents) = Slave
   \<and> map_sum id fst (evaluate boundsClass manyEvents) = Inr (536870912, - 1073741824)
   \<and> nLast 1073741824 (2 - 1) 2 \<noteq> 1073741824"
proof -
  have m: "gofOpMode (members manyEvents) = Slave" "numSets (members manyEvents) \<noteq> 0"
    by (simp_all add: manyEvents_def RooAbsGoodnessOfFit_def isSimultaneous_def)
  have "map_sum id fst (evaluate boundsClass manyEvents) = Inr (536870912, - 1073741824)"
    by (simp add: evaluate_Slave[OF m] boundsClass_def)
       (simp add: manyEvents_def RooAbsGoodnessOfFit_def nFirst_def nLast_def wrap32_def cdiv_def)
  moreover have "nLast 1073741824 (2 - 1) 2 \<noteq> 1073741824"
    by (simp add: nLast_def wrap32_def cdiv_def)
  ultimately show ?thesis using m by simp
qed

subsection \<open>What initialization preserves\<close>

lemma initSimMode_members:
  assumes "initSimMode this simpdf data0 projDeps0 = Inr this'"
  shows "members this' = (members this)\<lparr>nGof := nGof (members this'), cout := cout (members this')\<rparr>"
    and "mpfeArray this' = mpfeArray this"
proof -
  from assms have sim: "isSimultaneous simpdf"
    by (auto simp: initSimMode_def split: if_splits)
  from assms sim obtain dsetList where dl: "split data0 = Some dsetList"
    by (auto simp: initSimMode_def split: option.splits)
  note ex = initSimMode_exact[OF sim dl, of this projDeps0]
  show "members this' = (members this)\<lparr>nGof := nGof (members this'), cout := cout (members this')\<rparr>"
    using assms ex by auto
  show "mpfeArray this' = mpfeArray this" using assms ex by auto
qed

lemma initMPMode_members:
  assumes "initMPMode this pdf0 data0 projDeps0 = Inr this'"
  shows "members this' = (members this)\<lparr>cout := cout (members this')\<rparr>"
  by (rule initMPMode_rank(3)[OF assms])

subsection \<open>The value returned by initialize\<close>

text \<open>
  Claim C10. \<^verbatim>\<open>initialize()\<close> returns \<^verbatim>\<open>kFALSE\<close> on every call that returns: on an object that is
  already initialized it changes nothing, and on the first call, which runs \<^verbatim>\<open>initSimMode\<close>
  or \<^verbatim>\<open>initMPMode\<close> according to the mode and sets the flag \<^verbatim>\<open>_init\<close>, it returns \<^verbatim>\<open>kFALSE\<close> as
  well. The value returned therefore never tells whether set-up work was done.
\<close>

theorem C10_initialize_returns_kFALSE:
  "(\<forall>b this'. initialize this = Inr (b, this') \<longrightarrow> b = False \<and> init (members this'))
   \<and> (init (members this) \<longrightarrow> initialize this = Inr (False, this))
   \<and> (\<forall>b this'. \<not> init (members this) \<and> gofOpMode (members this) = SimMaster
          \<and> initialize this = Inr (b, this') \<longrightarrow>
        initSimMode this (pdf (members this)) (dataset (members this)) (projDeps (members this))
          = Inr (GOF ((members this')\<lparr>init := False\<rparr>) (gofArray this') (mpfeArray this')))
   \<and> (\<forall>b this'. \<not> init (members this) \<and> gofOpMode (members this) = MPMaster
          \<and> initialize this = Inr (b, this') \<longrightarrow>
        initMPMode this (pdf (members this)) (dataset (members this)) (projDeps (members this))
          = Inr (GOF ((members this')\<lparr>init := False\<rparr>) (gofArray this') (mpfeArray this')))"
proof -
  have P1: "\<forall>b this'. initialize this = Inr (b, this') \<longrightarrow> b = False \<and> init (members this')"
    by (auto simp: initialize_def split: if_splits sum.splits)
  have P2: "init (members this) \<longrightarrow> initialize this = Inr (False, this)"
    by (simp add: initialize_def)
  have P3: "initSimMode this (pdf (members this)) (dataset (members this)) (projDeps (members this))
          = Inr (GOF ((members this')\<lparr>init := False\<rparr>) (gofArray this') (mpfeArray this'))"
    if a: "\<not> init (members this) \<and> gofOpMode (members this) = SimMaster
          \<and> initialize this = Inr (b, this')" for b this'
  proof -
    from a obtain this1 where
      i: "initSimMode this (pdf (members this)) (dataset (members this)) (projDeps (members this)) = Inr this1"
      and t: "this' = GOF ((members this1)\<lparr>init := True\<rparr>) (gofArray this1) (mpfeArray this1)"
      by (auto simp: initialize_def split: sum.splits)
    have "\<not> init (members this1)" using initSimMode_rank(6)[OF i] a by simp
    then have "(members this1)\<lparr>init := False\<rparr> = members this1" by simp
    then have "GOF ((members this')\<lparr>init := False\<rparr>) (gofArray this') (mpfeArray this') = this1"
      by (simp add: t)
    then show ?thesis using i by simp
  qed
  have P4: "initMPMode this (pdf (members this)) (dataset (members this)) (projDeps (members this))
          = Inr (GOF ((members this')\<lparr>init := False\<rparr>) (gofArray this') (mpfeArray this'))"
    if a: "\<not> init (members this) \<and> gofOpMode (members this) = MPMaster
          \<and> initialize this = Inr (b, this')" for b this'
  proof -
    from a obtain this1 where
      i: "initMPMode this (pdf (members this)) (dataset (members this)) (projDeps (members this)) = Inr this1"
      and t: "this' = GOF ((members this1)\<lparr>init := True\<rparr>) (gofArray this1) (mpfeArray this1)"
      by (auto simp: initialize_def split: sum.splits)
    have "init (members this1) = init ((members this)\<lparr>cout := cout (members this1)\<rparr>)"
      using initMPMode_members[OF i] by simp
    then have "(members this1)\<lparr>init := False\<rparr> = members this1" using a by simp
    then have "GOF ((members this')\<lparr>init := False\<rparr>) (gofArray this') (mpfeArray this') = this1"
      by (simp add: t)
    then show ?thesis using i by simp
  qed
  show ?thesis
    apply (intro conjI)
    subgoal by (rule P1)
    subgoal by (rule P2)
    subgoal using P3 by blast
    subgoal using P4 by blast
    done
qed

text \<open>A simultaneous model of three states and a dataset with entries for two of them.\<close>

definition threeStates :: RooAbsPdf where
  "threeStates = RooSimultaneous [''mean''] [''a'', ''b'', ''c'']
     [(''a'', PlainPdf [''mean'']), (''b'', PlainPdf [''mean'']), (''c'', PlainPdf [''mean''])]"

definition twoSubsets :: RooAbsData where
  "twoSubsets = RooAbsData 7 (Some [(''a'', RooAbsData 3 None), (''c'', RooAbsData 4 None)])"

definition simEngine :: RooAbsGoodnessOfFit where
  "simEngine = RooAbsGoodnessOfFit (TString ''nll'') (TString ''nll'') threeStates twoSubsets [] 1"

lemma simEngine_initialize:
  "initialize simEngine = Inr (False,
     GOF ((members simEngine)\<lparr>nGof := 2, init := True,
            cout := [CreatingSlave 0 ''a'' 3, NoDataEntries ''b'', CreatingSlave 1 ''c'' 4]\<rparr>)
       [Some (recursiveRedirectServers [''mean''] False False
                (setSimCount 2 (create (TString ''a'') (TString ''a'') (PlainPdf [''mean'']) (RooAbsData 3 None) []))),
        Some (recursiveRedirectServers [''mean''] False False
                (setSimCount 2 (create (TString ''c'') (TString ''c'') (PlainPdf [''mean'']) (RooAbsData 4 None) [])))]
       [])"
  by (simp add: simEngine_def threeStates_def twoSubsets_def RooAbsGoodnessOfFit_def
        initialize_def initSimMode_def isSimultaneous_def getPdf_def FindObject_def
        storeGof_def Let_def writeCout_def eval_nat_numeral)


text \<open>
  The first call on a simultaneous model of three states, one of them without data: the
  flag is unset before, the call returns \<^verbatim>\<open>kFALSE\<close>, the flag is set after, and two children
  have been built.
\<close>

theorem C10_initialize_returns_kFALSE_witness:
  "\<not> init (members simEngine)
   \<and> fst (projr (initialize simEngine)) = False
   \<and> init (members (snd (projr (initialize simEngine))))
   \<and> length (gofArray (snd (projr (initialize simEngine)))) = 2"
proof -
  note i = simEngine_initialize
  have "\<not> init (members simEngine)" by (simp add: simEngine_def RooAbsGoodnessOfFit_def)
  moreover have "fst (projr (initialize simEngine)) = False
      \<and> init (members (snd (projr (initialize simEngine))))"
    using C10_initialize_returns_kFALSE[of simEngine, THEN conjunct1, rule_format, OF i] i by simp
  moreover have "length (gofArray (snd (projr (initialize simEngine)))) = 2" by (simp add: i)
  ultimately show ?thesis by blast
qed

subsection \<open>A dataset that cannot be split\<close>

text \<open>
  Claim C4. When the split of the dataset by the index category yields no list during the
  initialization of a \<open>SimMaster\<close> object, \<^verbatim>\<open>initSimMode\<close> prints its message and calls
  \<^verbatim>\<open>softAbort\<close>; \<^verbatim>\<open>initialize\<close>, \<^verbatim>\<open>evaluate\<close> and \<^verbatim>\<open>constOptimize\<close> pass the abort on to their
  caller and return no value. The object at the abort has the child array and the child
  count it had before and is still uninitialized: no child engine was constructed.
\<close>

theorem C4_split_failure_aborts:
  assumes "gofOpMode (members this) = SimMaster" "\<not> init (members this)"
    and "isSimultaneous (pdf (members this))" "split (dataset (members this)) = None"
  shows "initSimMode this (pdf (members this)) (dataset (members this)) (projDeps (members this))
           = Inl (SoftAbort (writeCout (UnableToSplit (GetName (members this))) this))
       \<and> initialize this = Inl (SoftAbort (writeCout (UnableToSplit (GetName (members this))) this))
       \<and> evaluate K this = Inl (SoftAbort (writeCout (UnableToSplit (GetName (members this))) this))
       \<and> constOptimize opcode this
           = Inl (SoftAbort (writeCout (UnableToSplit (GetName (members this))) this))
       \<and> gofArray (writeCout (UnableToSplit (GetName (members this))) this) = gofArray this
       \<and> nGof (members (writeCout (UnableToSplit (GetName (members this))) this)) = nGof (members this)
       \<and> \<not> init (members (writeCout (UnableToSplit (GetName (members this))) this))"
proof -
  have a: "initSimMode this (pdf (members this)) (dataset (members this)) (projDeps (members this))
           = Inl (SoftAbort (writeCout (UnableToSplit (GetName (members this))) this))"
    using assms by (simp add: initSimMode_def)
  have b: "initialize this = Inl (SoftAbort (writeCout (UnableToSplit (GetName (members this))) this))"
    using assms a by (simp add: initialize_def)
  have c: "evaluate K this = Inl (SoftAbort (writeCout (UnableToSplit (GetName (members this))) this))"
    using assms b by (subst evaluate.simps) simp
  have d: "constOptimize opcode this
           = Inl (SoftAbort (writeCout (UnableToSplit (GetName (members this))) this))"
    using b by (subst constOptimize.simps) simp
  show ?thesis using a b c d assms(2) by simp
qed

text \<open>A freshly constructed engine whose dataset cannot be split: the abort leaves it
  without children.\<close>

definition unsplittable :: RooAbsGoodnessOfFit where
  "unsplittable = RooAbsGoodnessOfFit (TString ''nll'') (TString ''nll'') threeStates
                    (RooAbsData 7 None) [] 1"

theorem C4_split_failure_aborts_witness:
  "evaluate boundsClass unsplittable
     = Inl (SoftAbort (writeCout (UnableToSplit (TString ''nll'')) unsplittable))
   \<and> gofArray (writeCout (UnableToSplit (TString ''nll'')) unsplittable) = []
   \<and> nGof (members (writeCout (UnableToSplit (TString ''nll'')) unsplittable)) = 0
   \<and> cout (members (writeCout (UnableToSplit (TString ''nll'')) unsplittable))
        = [UnableToSplit (TString ''nll'')]"
proof -
  have h: "gofOpMode (members unsplittable) = SimMaster" "\<not> init (members unsplittable)"
    "isSimultaneous (pdf (members unsplittable))" "split (dataset (members unsplittable)) = None"
    by (simp_all add: unsplittable_def RooAbsGoodnessOfFit_def threeStates_def isSimultaneous_def)
  have n: "GetName (members unsplittable) = TString ''nll''"
    by (simp add: unsplittable_def RooAbsGoodnessOfFit_def)
  from C4_split_failure_aborts[OF h, of boundsClass 0]
  have "evaluate boundsClass unsplittable
     = Inl (SoftAbort (writeCout (UnableToSplit (TString ''nll'')) unsplittable))"
    by (simp add: n)
  then show ?thesis by (simp add: unsplittable_def RooAbsGoodnessOfFit_def)
qed

subsection \<open>setMPSet and invalid selectors\<close>

lemma setMPSet_not_SimMaster:
  "gofOpMode (members this) \<noteq> SimMaster \<Longrightarrow>
     setMPSet sn ns this = Inr (GOF ((members this)\<lparr>setNum := sn, numSets := ns\<rparr>) (gofArray this) (mpfeArray this))"
  by (cases this) (simp add: Let_def)

lemma initialize_SimMaster_members:
  assumes "initialize_SimMaster this = Inr (b, this')"
  shows "setNum (members this') = setNum (members this)"
    and "numSets (members this') = numSets (members this)"
proof -
  have "setNum (members this') = setNum (members this) \<and> numSets (members this') = numSets (members this)"
  proof (cases "init (members this)")
    case True
    then show ?thesis using assms by (simp add: initialize_SimMaster_def)
  next
    case False
    then obtain this1 where
      i: "initSimMode this (pdf (members this)) (dataset (members this)) (projDeps (members this)) = Inr this1"
      and t: "this' = GOF ((members this1)\<lparr>init := True\<rparr>) (gofArray this1) (mpfeArray this1)"
      using assms by (auto simp: initialize_SimMaster_def split: sum.splits)
    have "setNum (members this1) = setNum ((members this)\<lparr>nGof := nGof (members this1), cout := cout (members this1)\<rparr>)"
      "numSets (members this1) = numSets ((members this)\<lparr>nGof := nGof (members this1), cout := cout (members this1)\<rparr>)"
      using initSimMode_members(1)[OF i] by simp_all
    then show ?thesis by (simp add: t)
  qed
  then show "setNum (members this') = setNum (members this)"
    and "numSets (members this') = numSets (members this)" by simp_all
qed

text \<open>
  Claim C7, as amended. \<^verbatim>\<open>setMPSet(setNum,numSets)\<close> does not validate its arguments. On a
  \<open>Slave\<close> or \<open>MPMaster\<close> object it returns normally for every pair of integers, having
  stored them in \<^verbatim>\<open>_setNum\<close> and \<^verbatim>\<open>_numSets\<close> and changed nothing else; and whenever it returns
  (in any mode) the object holds the pair it was given.
\<close>

theorem C7_setMPSet_records_without_validation:
  "(gofOpMode (members this) \<noteq> SimMaster \<longrightarrow>
      setMPSet sn ns this
        = Inr (GOF ((members this)\<lparr>setNum := sn, numSets := ns\<rparr>) (gofArray this) (mpfeArray this)))
   \<and> (\<forall>this'. setMPSet sn ns this = Inr this' \<longrightarrow>
         setNum (members this') = sn \<and> numSets (members this') = ns)"
proof -
  have B: "setNum (members this') = sn \<and> numSets (members this') = ns"
    if "setMPSet sn ns this = Inr this'" for this'
  proof (cases "gofOpMode (members this) = SimMaster")
    case False
    then show ?thesis using that setMPSet_not_SimMaster[of this sn ns] by auto
  next
    case True
    obtain f arr mp where this_eq: "this = GOF f arr mp" by (cases this)
    from that True obtain b this1 arr2 where
      i: "initialize_SimMaster (GOF (f\<lparr>setNum := sn, numSets := ns\<rparr>) arr mp) = Inr (b, this1)"
      and t: "this' = GOF (members this1) arr2 (mpfeArray this1)"
      by (auto simp: this_eq Let_def split: sum.splits)
    show ?thesis using initialize_SimMaster_members[OF i] by (simp add: t)
  qed
  show ?thesis using setMPSet_not_SimMaster[of this sn ns] B by blast
qed

text \<open>The selectors \<open>(-1, 3)\<close> are stored as they are.\<close>

theorem C7_setMPSet_records_without_validation_witness:
  "setMPSet (- 1) 3 tenEvents
     = Inr (GOF ((members tenEvents)\<lparr>setNum := - 1, numSets := 3\<rparr>) [] [])"
proof -
  have "gofOpMode (members tenEvents) \<noteq> SimMaster"
    by (simp add: tenEvents_def RooAbsGoodnessOfFit_def isSimultaneous_def)
  then show ?thesis
    using C7_setMPSet_records_without_validation[of tenEvents "- 1" 3]
    by (simp add: tenEvents_def)
qed

text \<open>
  The claim as stated fails: \<^verbatim>\<open>setMPSet(5,0)\<close> on a Slave engine returns normally with
  \<^verbatim>\<open>_setNum = 5\<close> and \<^verbatim>\<open>_numSets = 0\<close> stored and nothing printed; the selectors show only at
  the next \<^verbatim>\<open>evaluate()\<close>, which divides by \<^verbatim>\<open>_numSets\<close>.
\<close>

theorem C7_counterexample:
  "setMPSet 5 0 tenEvents = Inr (GOF ((members tenEvents)\<lparr>setNum := 5, numSets := 0\<rparr>) [] [])
   \<and> cout (members (GOF ((members tenEvents)\<lparr>setNum := 5, numSets := 0\<rparr>) [] [])) = []
   \<and> evaluate boundsClass (GOF ((members tenEvents)\<lparr>setNum := 5, numSets := 0\<rparr>) [] [])
       = Inl DivideByZero"
proof -
  have a: "setMPSet 5 0 tenEvents = Inr (GOF ((members tenEvents)\<lparr>setNum := 5, numSets := 0\<rparr>) [] [])"
    by (simp add: tenEvents_def RooAbsGoodnessOfFit_def isSimultaneous_def Let_def)
  have b: "cout (members (GOF ((members tenEvents)\<lparr>setNum := 5, numSets := 0\<rparr>) [] [])) = []"
    by (simp add: tenEvents_def RooAbsGoodnessOfFit_def)
  have c: "evaluate boundsClass (GOF ((members tenEvents)\<lparr>setNum := 5, numSets := 0\<rparr>) [] [])
       = Inl DivideByZero"
    by (subst evaluate.simps)
       (simp add: tenEvents_def RooAbsGoodnessOfFit_def isSimultaneous_def initialize_def)
  show ?thesis using a b c by simp
qed

subsection \<open>Copying an object that is not initialized\<close>

text \<open>
  Claim C9 says that copying an uninitialized instance yields a clone that defers its
  set-up. For an object constructed with two or more workers and not yet initialized the
  copy constructor does not get that far: \<^verbatim>\<open>_mpfeArray\<close> of the original is still the null
  pointer of the constructor, and the loop over \<^verbatim>\<open>i < _nCPU\<close> dereferences
  \<^verbatim>\<open>other._mpfeArray[0]\<close>. (The destructor guards the same array with \<^verbatim>\<open>_init\<close>.)
\<close>

theorem C9_copy_of_uninitialized_MPMaster_faults:
  "RooAbsGoodnessOfFit_copy (RooAbsGoodnessOfFit name title pdf0 data0 projDeps0 (2 + int k))
     = Inl InvalidPointer"
proof -
  have n: "nat (2 + int k) = Suc (Suc k)" by simp
  show ?thesis
    by (subst RooAbsGoodnessOfFit_copy.simps)
       (simp add: RooAbsGoodnessOfFit_def Let_def n del: nat_int_add)
qed

subsection \<open>Forwarding of structural changes\<close>

text \<open>
  Claim C3 says that a server redirection is forwarded to every worker front-end of an
  \<open>MPMaster\<close> object. \<^verbatim>\<open>redirectServersHook\<close> on an \<open>MPMaster\<close> object returns \<^verbatim>\<open>kFALSE\<close> and
  leaves the object as it was, whatever its worker array holds: no front-end and no
  wrapped engine is told of the redirection.
\<close>

theorem C3_redirect_not_forwarded_by_MPMaster:
  "redirectServersHook newServerList mustReplaceAll nameChange isRecursive
       (GOF (f\<lparr>gofOpMode := MPMaster\<rparr>) arr mp)
     = Inr (False, GOF (f\<lparr>gofOpMode := MPMaster\<rparr>) arr mp)"
  by (simp add: redirectServersHook_def)

subsection \<open>Evaluating twice\<close>

lemma getVals_fixed:
  assumes "getVals g n arr = Inr (vs, arr')"
    and "\<And>c v c'. Some c \<in> set arr \<Longrightarrow> g c = Inr (v, c') \<Longrightarrow> g c' = Inr (v, c')"
  shows "getVals g n arr' = Inr (vs, arr')"
  using assms
proof (induction g n arr arbitrary: vs arr' rule: getVals.induct)
  case (4 g n c rest)
  from "4.prems"(1) obtain v c' vs' rest' where gc: "g c = Inr (v, c')"
      and r: "getVals g n rest = Inr (vs', rest')"
      and e: "vs = v # vs'" "arr' = Some c' # rest'"
    by (auto split: sum.splits)
  have "getVals g n rest' = Inr (vs', rest')"
    by (rule "4.IH"[OF gc refl r]) (use "4.prems"(2) in auto)
  moreover have "g c' = Inr (v, c')" using "4.prems"(2)[of c v c'] gc by simp
  ultimately show ?case by (simp add: e)
qed auto

lemma getVals_calculate:
  "getVals g n arr = Inr (vs, arr') \<Longrightarrow> forWorkers mpfe_calculate n arr' = Inr arr'"
proof (induction g n arr arbitrary: vs arr' rule: getVals.induct)
  case (4 g n c rest)
  then show ?case by (auto simp: mpfe_calculate_def split: sum.splits)
qed auto

lemma initialize_sets_init: "initialize this = Inr (b, this') \<Longrightarrow> init (members this')"
  by (auto simp: initialize_def split: if_splits sum.splits)

lemma mpfe_getVal_fixed:
  assumes "mpfe_getVal ev w = Inr (v, w')"
    and "\<And>v a. ev (arg w) = Inr (v, a) \<Longrightarrow> ev a = Inr (v, a)"
  shows "mpfe_getVal ev w' = Inr (v, w')"
proof -
  from assms(1) obtain a where e: "ev (arg w) = Inr (v, a)"
    and w': "w' = MPFE (mpfe_name w) (mpfe_title w) a (doInline w) (mpfe_init w) (mpfe_msgs w)"
    by (auto simp: mpfe_getVal_def split: sum.splits)
  have "ev a = Inr (v, a)" by (rule assms(2)[OF e])
  then show ?thesis by (simp add: mpfe_getVal_def w')
qed

lemma evaluate_fixed:
  "evaluate K this = Inr (v, this1) \<Longrightarrow> evaluate K this1 = Inr (v, this1) \<and> init (members this1)"
proof (induction K this arbitrary: v this1 rule: evaluate.induct)
  case (1 K this)
  from "1.prems" obtain b y where i: "initialize this = Inr (b, y)"
    by (subst (asm) evaluate.simps) (auto simp: initialize_if_init split: sum.splits)
  then have i': "(if \<not> init (members this) then initialize this else Inr (False, this)) = Inr (b, y)"
    by (simp add: initialize_if_init)
  have iy: "init (members y)" by (rule initialize_sets_init[OF i])
  consider (sim) "gofOpMode (members y) = SimMaster"
    | (mp) "gofOpMode (members y) = MPMaster"
    | (slave) "gofOpMode (members y) = Slave"
    by (cases "gofOpMode (members y)") auto
  then show ?case
  proof cases
    case sim
    from "1.prems" i' sim obtain vals arr1 where
      g: "getVals (evaluate K) (nat (nGof (members y))) (gofArray y) = Inr (vals, arr1)"
      and v: "v = combinedValue K vals" and t: "this1 = GOF (members y) arr1 (mpfeArray y)"
      by (subst (asm) evaluate.simps) (auto split: sum.splits)
    have g2: "getVals (evaluate K) (nat (nGof (members y))) arr1 = Inr (vals, arr1)"
      by (rule getVals_fixed[OF g]) (use "1.IH"(1)[OF i' refl sim] in blast)
    show ?thesis using g2 iy sim v
      by (subst evaluate.simps) (simp add: t)
  next
    case mp
    from "1.prems" i' mp obtain mp1 vals mp2 where
      c: "forWorkers mpfe_calculate (nat (nCPU (members y))) (mpfeArray y) = Inr mp1"
      and g: "getVals (mpfe_getVal (evaluate K)) (nat (nCPU (members y))) mp1 = Inr (vals, mp2)"
      and v: "v = combinedValue K vals" and t: "this1 = GOF (members y) (gofArray y) mp2"
      by (subst (asm) evaluate.simps) (auto split: sum.splits)
    have m: "gofOpMode (members y) \<noteq> SimMaster" using mp by simp
    have g2: "getVals (mpfe_getVal (evaluate K)) (nat (nCPU (members y))) mp2 = Inr (vals, mp2)"
    proof (rule getVals_fixed[OF g])
      fix w v' w'
      assume w: "Some w \<in> set mp1" and e: "mpfe_getVal (evaluate K) w = Inr (v', w')"
      show "mpfe_getVal (evaluate K) w' = Inr (v', w')"
        by (rule mpfe_getVal_fixed[OF e]) (use "1.IH"(2)[OF i' refl m mp c w] in blast)
    qed
    have c2: "forWorkers mpfe_calculate (nat (nCPU (members y))) mp2 = Inr mp2"
      by (rule getVals_calculate[OF g])
    show ?thesis using g2 c2 iy mp v
      by (subst evaluate.simps) (simp add: t)
  next
    case slave
    from "1.prems" i' slave have "numSets (members y) \<noteq> 0 \<and> this1 = y
        \<and> v = evaluatePartition K y
                        (nFirst (nEvents (members y)) (setNum (members y)) (numSets (members y)))
                        (nLast (nEvents (members y)) (setNum (members y)) (numSets (members y)))"
      by (subst (asm) evaluate.simps) (auto split: sum.splits if_splits)
    then have n: "numSets (members y) \<noteq> 0" and t: "this1 = y"
      and v: "v = evaluatePartition K y
                        (nFirst (nEvents (members y)) (setNum (members y)) (numSets (members y)))
                        (nLast (nEvents (members y)) (setNum (members y)) (numSets (members y)))"
      by simp_all
    show ?thesis using iy slave n v
      by (subst evaluate.simps) (simp add: t)
  qed
qed

lemma getVals_length:
  "getVals g n arr = Inr (vs, arr') \<Longrightarrow> length arr' = length arr"
proof (induction g n arr arbitrary: vs arr' rule: getVals.induct)
  case (4 g n c rest)
  from "4.prems" obtain v c' vs' rest' where gc: "g c = Inr (v, c')"
      and r: "getVals g n rest = Inr (vs', rest')"
      and e: "arr' = Some c' # rest'"
    by (auto split: sum.splits)
  show ?case using "4.IH"[OF gc refl r] e by simp
qed auto

lemma initialize_returns_False: "initialize this = Inr (b, y) \<Longrightarrow> b = False"
  by (auto simp: initialize_def split: if_splits sum.splits)

lemma evaluate_initialized:
  assumes i: "initialize this = Inr (b, y)"
  shows "evaluate K this = evaluate K y"
proof -
  have iy: "init (members y)" by (rule initialize_sets_init[OF i])
  have b: "b = False" by (rule initialize_returns_False[OF i])
  show ?thesis
    by (simp add: evaluate.simps[of K this] evaluate.simps[of K y] initialize_if_init i iy b)
qed

lemma evaluate_keeps:
  assumes iy: "init (members y)" and e: "evaluate K y = Inr (v, this1)"
  shows "members this1 = members y \<and> length (gofArray this1) = length (gofArray y)
       \<and> length (mpfeArray this1) = length (mpfeArray y)"
proof -
  consider (sim) "gofOpMode (members y) = SimMaster"
    | (mp) "gofOpMode (members y) = MPMaster"
    | (slave) "gofOpMode (members y) = Slave"
    by (cases "gofOpMode (members y)") auto
  then show ?thesis
  proof cases
    case sim
    from e iy sim obtain vals arr1 where
      g: "getVals (evaluate K) (nat (nGof (members y))) (gofArray y) = Inr (vals, arr1)"
      and t: "this1 = GOF (members y) arr1 (mpfeArray y)"
      by (subst (asm) evaluate.simps) (auto split: sum.splits)
    show ?thesis using getVals_length[OF g] by (simp add: t)
  next
    case mp
    from e iy mp obtain mp1 vals mp2 where
      c: "forWorkers mpfe_calculate (nat (nCPU (members y))) (mpfeArray y) = Inr mp1"
      and g: "getVals (mpfe_getVal (evaluate K)) (nat (nCPU (members y))) mp1 = Inr (vals, mp2)"
      and t: "this1 = GOF (members y) (gofArray y) mp2"
      by (subst (asm) evaluate.simps) (auto split: sum.splits)
    have "mp1 = mpfeArray y" by (rule forWorkers_calculate[OF c])
    then show ?thesis using getVals_length[OF g] by (simp add: t)
  next
    case slave
    from e iy slave have "this1 = y"
      by (subst (asm) evaluate.simps) (auto split: sum.splits if_splits)
    then show ?thesis by simp
  qed
qed

lemma initSimMode_length:
  assumes "initSimMode this simpdf data0 projDeps0 = Inr this'"
  shows "length (gofArray this') = nat (nGof (members this'))"
proof -
  from assms have sim: "isSimultaneous simpdf"
    by (auto simp: initSimMode_def split: if_splits)
  from assms sim obtain dsetList where dl: "split data0 = Some dsetList"
    by (auto simp: initSimMode_def split: option.splits)
  show ?thesis using assms initSimMode_exact[OF sim dl, of this projDeps0] by auto
qed

lemma initMPMode_length:
  assumes "initMPMode this pdf0 data0 projDeps0 = Inr this'"
  shows "length (mpfeArray this') = nat (nCPU (members this'))"
proof -
  let ?this1 = "GOF (members this) (gofArray this) (replicate (nat (nCPU (members this))) None)"
  let ?gof = "create (GetName (members this)) (GetTitle (members this)) pdf0 data0 projDeps0"
  from assms obtain gof' where
    l: "initMPLoop (map int [0..<nat (nCPU (members this))]) (?gof, ?this1) = Inr (gof', this')"
    by (auto simp: initMPMode_def Let_def split: sum.splits)
  note inv = initMPLoop_inv[OF l]
  from inv have m: "members this' = (members ?this1)\<lparr>cout := cout (members this')\<rparr>"
    and len: "length (mpfeArray this') = length (mpfeArray ?this1)" by blast+
  have "nCPU (members this') = nCPU (members this)" by (subst m) simp
  then show ?thesis using len by simp
qed

lemma initialize_lengths:
  assumes "\<not> init (members this)" "initialize this = Inr (b, y)"
  shows "(gofOpMode (members this) = SimMaster \<longrightarrow> length (gofArray y) = nat (nGof (members y)))
       \<and> (gofOpMode (members this) = MPMaster \<longrightarrow> length (mpfeArray y) = nat (nCPU (members y)))"
proof (intro conjI impI)
  assume m: "gofOpMode (members this) = SimMaster"
  from assms m obtain this1 where
    i1: "initSimMode this (pdf (members this)) (dataset (members this)) (projDeps (members this)) = Inr this1"
    and t: "y = GOF ((members this1)\<lparr>init := True\<rparr>) (gofArray this1) (mpfeArray this1)"
    by (auto simp: initialize_def split: sum.splits)
  show "length (gofArray y) = nat (nGof (members y))"
    using initSimMode_length[OF i1] by (simp add: t)
next
  assume m: "gofOpMode (members this) = MPMaster"
  from assms m obtain this1 where
    i1: "initMPMode this (pdf (members this)) (dataset (members this)) (projDeps (members this)) = Inr this1"
    and t: "y = GOF ((members this1)\<lparr>init := True\<rparr>) (gofArray this1) (mpfeArray this1)"
    by (auto simp: initialize_def split: sum.splits)
  show "length (mpfeArray y) = nat (nCPU (members y))"
    using initMPMode_length[OF i1] by (simp add: t)
qed

text \<open>
  Claim C5. If \<^verbatim>\<open>evaluate()\<close> returns a value, then: a second \<^verbatim>\<open>evaluate()\<close> right after it
  returns the same value and leaves the object exactly as the first call left it, so the
  second call builds no child or worker and prints no line; after the first call the
  object is initialized, and \<^verbatim>\<open>initialize()\<close> on it changes nothing and returns \<^verbatim>\<open>kFALSE\<close>.
  The first call is one pass of \<^verbatim>\<open>initialize()\<close> followed by the evaluation of the object
  that pass leaves: the object after the first call has the data members of that object,
  the lines printed by the pass among them, and as many children and worker front-ends as
  the pass built, which on an object that was uninitialized are \<^verbatim>\<open>_nGof\<close> children in
  \<open>SimMaster\<close> mode and \<^verbatim>\<open>_nCPU\<close> front-ends in \<open>MPMaster\<close> mode. When the pass fails, so
  does \<^verbatim>\<open>evaluate()\<close>, with the same fault.
\<close>

theorem C5_evaluate_twice:
  "(\<forall>v this1. evaluate K this = Inr (v, this1) \<longrightarrow>
       evaluate K this1 = Inr (v, this1) \<and> init (members this1)
     \<and> initialize this1 = Inr (False, this1)
     \<and> (\<exists>y. initialize this = Inr (False, y) \<and> evaluate K y = Inr (v, this1)
            \<and> members this1 = members y
            \<and> length (gofArray this1) = length (gofArray y)
            \<and> length (mpfeArray this1) = length (mpfeArray y)
            \<and> (\<not> init (members this) \<and> gofOpMode (members this) = SimMaster \<longrightarrow>
                  length (gofArray this1) = nat (nGof (members this1)))
            \<and> (\<not> init (members this) \<and> gofOpMode (members this) = MPMaster \<longrightarrow>
                  length (mpfeArray this1) = nat (nCPU (members this1)))))
   \<and> (\<forall>e. initialize this = Inl e \<longrightarrow> evaluate K this = Inl e)
   \<and> (init (members this) \<longrightarrow> initialize this = Inr (False, this))"
proof -
  have A: "evaluate K this1 = Inr (v, this1) \<and> init (members this1) \<and> initialize this1 = Inr (False, this1)"
    if "evaluate K this = Inr (v, this1)" for v this1
    using evaluate_fixed[OF that] by (simp add: initialize_def)
  have B: "\<exists>y. initialize this = Inr (False, y) \<and> evaluate K y = Inr (v, this1)
            \<and> members this1 = members y
            \<and> length (gofArray this1) = length (gofArray y)
            \<and> length (mpfeArray this1) = length (mpfeArray y)
            \<and> (\<not> init (members this) \<and> gofOpMode (members this) = SimMaster \<longrightarrow>
                  length (gofArray this1) = nat (nGof (members this1)))
            \<and> (\<not> init (members this) \<and> gofOpMode (members this) = MPMaster \<longrightarrow>
                  length (mpfeArray this1) = nat (nCPU (members this1)))"
    if e: "evaluate K this = Inr (v, this1)" for v this1
  proof -
    from e obtain b y where i0: "initialize this = Inr (b, y)"
      by (subst (asm) evaluate.simps) (auto simp: initialize_if_init split: sum.splits)
    have b: "b = False" by (rule initialize_returns_False[OF i0])
    have i: "initialize this = Inr (False, y)" using i0 b by simp
    have ey: "evaluate K y = Inr (v, this1)" using evaluate_initialized[OF i, of K] e by simp
    note k = evaluate_keeps[OF initialize_sets_init[OF i] ey]
    from k have k1: "members this1 = members y" and k2: "length (gofArray this1) = length (gofArray y)"
      and k3: "length (mpfeArray this1) = length (mpfeArray y)" by blast+
    have s: "length (gofArray this1) = nat (nGof (members this1))"
      if "\<not> init (members this) \<and> gofOpMode (members this) = SimMaster"
      using initialize_lengths[OF _ i] that k1 k2 by simp
    have m: "length (mpfeArray this1) = nat (nCPU (members this1))"
      if "\<not> init (members this) \<and> gofOpMode (members this) = MPMaster"
      using initialize_lengths[OF _ i] that k1 k3 by simp
    show ?thesis
      apply (rule exI[of _ y])
      apply (intro conjI impI)
      subgoal by (rule i)
      subgoal by (rule ey)
      subgoal by (rule k1)
      subgoal by (rule k2)
      subgoal by (rule k3)
      subgoal by (rule s) simp
      subgoal by (rule m) simp
      done
  qed
  have C: "evaluate K this = Inl e" if "initialize this = Inl e" for e
    using that by (subst evaluate.simps) (simp add: initialize_if_init)
  have D: "init (members this) \<longrightarrow> initialize this = Inr (False, this)"
    by (simp add: initialize_def)
  show ?thesis
    apply (intro conjI allI impI)
    subgoal for v this1 using A by blast
    subgoal for v this1 using A by blast
    subgoal for v this1 using A by blast
    subgoal for v this1 by (rule B)
    subgoal for e by (rule C)
    subgoal using D by blast
    done
qed

text \<open>A subclass that counts the events of a slice and adds the counts up.\<close>

definition countClass :: "int gof_class" where
  "countClass = \<lparr> evaluatePartition = (\<lambda>this a b. b - a), combinedValue = sum_list \<rparr>"

lemma simEngine_fresh:
  "\<not> init (members simEngine)" "gofOpMode (members simEngine) = SimMaster"
  by (simp_all add: simEngine_def RooAbsGoodnessOfFit_def isSimultaneous_def threeStates_def)

lemma slave_evaluate:
  "evaluate countClass
     (recursiveRedirectServers ps False False
        (setSimCount n (create nm ti (PlainPdf qs) (RooAbsData k None) [])))
   = Inr (wrap32 (cdiv (wrap32 (k * wrap32 1)) 1) - wrap32 (cdiv (wrap32 (k * 0)) 1),
          GOF ((members (recursiveRedirectServers ps False False
                  (setSimCount n (create nm ti (PlainPdf qs) (RooAbsData k None) []))))\<lparr>init := True\<rparr>) [] [])"
  by (subst evaluate.simps)
     (simp add: countClass_def recursiveRedirectServers_def setSimCount_def create_def
        RooAbsGoodnessOfFit_def isSimultaneous_def initialize_def nFirst_def nLast_def)

lemma simEngine_evaluate: "\<exists>this1. evaluate countClass simEngine = Inr (7, this1)"
  by (subst evaluate.simps)
     (simp add: simEngine_fresh simEngine_initialize slave_evaluate eval_nat_numeral,
      simp add: countClass_def wrap32_def cdiv_def)

text \<open>
  The simultaneous model of three states on a dataset of ten entries, three of them in
  the subset of state \<open>a\<close> and four in the subset of state \<open>c\<close>.
\<close>

definition tenEntries :: RooAbsData where
  "tenEntries = RooAbsData 10 (Some [(''a'', RooAbsData 3 None), (''c'', RooAbsData 4 None)])"

definition tenEngine :: RooAbsGoodnessOfFit where
  "tenEngine = RooAbsGoodnessOfFit (TString ''nll'') (TString ''nll'') threeStates tenEntries [] 1"

lemma tenEngine_initialize:
  "initialize tenEngine = Inr (False,
     GOF ((members tenEngine)\<lparr>nGof := 2, init := True,
            cout := [CreatingSlave 0 ''a'' 3, NoDataEntries ''b'', CreatingSlave 1 ''c'' 4]\<rparr>)
       [Some (recursiveRedirectServers [''mean''] False False
                (setSimCount 2 (create (TString ''a'') (TString ''a'') (PlainPdf [''mean'']) (RooAbsData 3 None) []))),
        Some (recursiveRedirectServers [''mean''] False False
                (setSimCount 2 (create (TString ''c'') (TString ''c'') (PlainPdf [''mean'']) (RooAbsData 4 None) [])))]
       [])"
  by (simp add: tenEngine_def threeStates_def tenEntries_def RooAbsGoodnessOfFit_def
        initialize_def initSimMode_def isSimultaneous_def getPdf_def FindObject_def
        storeGof_def Let_def writeCout_def eval_nat_numeral)

lemma tenEngine_fresh:
  "\<not> init (members tenEngine)" "gofOpMode (members tenEngine) = SimMaster"
  "nEvents (members tenEngine) = 10"
  by (simp_all add: tenEngine_def RooAbsGoodnessOfFit_def isSimultaneous_def threeStates_def
        tenEntries_def)

lemma tenEngine_evaluate: "\<exists>this1. evaluate countClass tenEngine = Inr (7, this1)"
  by (subst evaluate.simps)
     (simp add: tenEngine_fresh tenEngine_initialize slave_evaluate eval_nat_numeral,
      simp add: countClass_def wrap32_def cdiv_def)

text \<open>
  That object evaluated twice. The first call builds the two children, prints the three
  lines of \<^verbatim>\<open>initSimMode\<close> and returns 7, the sum of the children's counts, and not the
  count 10 of the object's own events; the second call returns 7 again, and the object
  still has two children and the same three lines.
\<close>

theorem C5_evaluate_twice_witness:
  "\<not> init (members tenEngine)
   \<and> nEvents (members tenEngine) = 10
   \<and> map_sum id fst (evaluate countClass tenEngine) = Inr 7
   \<and> evaluate countClass (snd (projr (evaluate countClass tenEngine)))
        = evaluate countClass tenEngine
   \<and> init (members (snd (projr (evaluate countClass tenEngine))))
   \<and> length (gofArray (snd (projr (evaluate countClass tenEngine)))) = 2
   \<and> cout (members (snd (projr (evaluate countClass tenEngine))))
       = [CreatingSlave 0 ''a'' 3, NoDataEntries ''b'', CreatingSlave 1 ''c'' 4]
   \<and> cout (members (snd (projr (evaluate countClass
                                    (snd (projr (evaluate countClass tenEngine)))))))
       = [CreatingSlave 0 ''a'' 3, NoDataEntries ''b'', CreatingSlave 1 ''c'' 4]"
proof -
  obtain this1 where e: "evaluate countClass tenEngine = Inr (7, this1)"
    using tenEngine_evaluate by blast
  note t = C5_evaluate_twice[of countClass tenEngine, THEN conjunct1, rule_format, OF e]
  from t obtain y where i: "initialize tenEngine = Inr (False, y)"
    and m: "members this1 = members y" and l: "length (gofArray this1) = length (gofArray y)"
    by blast
  from t have e2: "evaluate countClass this1 = Inr (7, this1)" and ini: "init (members this1)"
    by blast+
  have y: "y = GOF ((members tenEngine)\<lparr>nGof := 2, init := True,
            cout := [CreatingSlave 0 ''a'' 3, NoDataEntries ''b'', CreatingSlave 1 ''c'' 4]\<rparr>)
       [Some (recursiveRedirectServers [''mean''] False False
                (setSimCount 2 (create (TString ''a'') (TString ''a'') (PlainPdf [''mean'']) (RooAbsData 3 None) []))),
        Some (recursiveRedirectServers [''mean''] False False
                (setSimCount 2 (create (TString ''c'') (TString ''c'') (PlainPdf [''mean'']) (RooAbsData 4 None) [])))]
       []"
    using i tenEngine_initialize by simp
  have c: "cout (members this1) = [CreatingSlave 0 ''a'' 3, NoDataEntries ''b'', CreatingSlave 1 ''c'' 4]"
    unfolding m y by simp
  have l2: "length (gofArray this1) = 2" unfolding l y by simp
  show ?thesis
    using tenEngine_fresh(1,3) e e2 ini c l2 by simp
qed

subsection \<open>The operating mode\<close>

text \<open>The member functions a caller can invoke on an object, and sequences of such calls.\<close>

datatype operation =
    Evaluate
  | Initialize
  | RedirectServersHook RooArgSet bool bool bool
  | ConstOptimize ConstOpCode
  | SetMPSet Int_t Int_t
  | SetSimCount Int_t

fun invoke :: "'v gof_class \<Rightarrow> operation \<Rightarrow> RooAbsGoodnessOfFit \<Rightarrow> RooAbsGoodnessOfFit result" where
  "invoke K Evaluate this = map_sum id snd (evaluate K this)"
| "invoke K Initialize this = map_sum id snd (initialize this)"
| "invoke K (RedirectServersHook newServerList mustReplaceAll nameChange isRecursive) this =
     map_sum id snd (redirectServersHook newServerList mustReplaceAll nameChange isRecursive this)"
| "invoke K (ConstOptimize opcode) this = constOptimize opcode this"
| "invoke K (SetMPSet sn ns) this = setMPSet sn ns this"
| "invoke K (SetSimCount n) this = Inr (setSimCount n this)"

fun invokeAll :: "'v gof_class \<Rightarrow> operation list \<Rightarrow> RooAbsGoodnessOfFit \<Rightarrow> RooAbsGoodnessOfFit result" where
  "invokeAll K [] this = Inr this"
| "invokeAll K (op # ops) this =
     (case invoke K op this of Inl e \<Rightarrow> Inl e | Inr this1 \<Rightarrow> invokeAll K ops this1)"

lemma initialize_mode:
  assumes "initialize this = Inr (b, this')"
  shows "gofOpMode (members this') = gofOpMode (members this)"
proof (cases "init (members this)")
  case True
  then show ?thesis using assms by (simp add: initialize_def)
next
  case False
  then obtain this1 where
    i: "(gofOpMode (members this) = MPMaster \<and>
          initMPMode this (pdf (members this)) (dataset (members this)) (projDeps (members this)) = Inr this1)
      \<or> (gofOpMode (members this) = SimMaster \<and>
          initSimMode this (pdf (members this)) (dataset (members this)) (projDeps (members this)) = Inr this1)
      \<or> this1 = this"
    and t: "this' = GOF ((members this1)\<lparr>init := True\<rparr>) (gofArray this1) (mpfeArray this1)"
    using assms by (auto simp: initialize_def split: sum.splits if_splits)
  have "gofOpMode (members this1) = gofOpMode (members this)"
  proof -
    consider (a) "initMPMode this (pdf (members this)) (dataset (members this)) (projDeps (members this)) = Inr this1"
      | (b) "initSimMode this (pdf (members this)) (dataset (members this)) (projDeps (members this)) = Inr this1"
      | (c) "this1 = this" using i by blast
    then show ?thesis
    proof cases
      case a
      have "gofOpMode (members this1) = gofOpMode ((members this)\<lparr>cout := cout (members this1)\<rparr>)"
        using initMPMode_members[OF a] by simp
      then show ?thesis by simp
    next
      case b
      then show ?thesis by (rule initSimMode_rank(4))
    next
      case c
      then show ?thesis by simp
    qed
  qed
  then show ?thesis by (simp add: t)
qed

lemma evaluate_mode:
  assumes "evaluate K this = Inr (v, this')"
  shows "gofOpMode (members this') = gofOpMode (members this)"
proof -
  from assms obtain b y where i: "initialize this = Inr (b, y)"
    by (subst (asm) evaluate.simps) (auto simp: initialize_if_init split: sum.splits)
  then have i': "(if \<not> init (members this) then initialize this else Inr (False, this)) = Inr (b, y)"
    by (simp add: initialize_if_init)
  from assms i' have "members this' = members y"
    by (subst (asm) evaluate.simps) (auto split: sum.splits if_splits)
  then show ?thesis using initialize_mode[OF i] by simp
qed

lemma constOptimize_mode:
  assumes "constOptimize opcode this = Inr this'"
  shows "gofOpMode (members this') = gofOpMode (members this)"
proof -
  from assms obtain b y where i: "initialize this = Inr (b, y)"
    by (subst (asm) constOptimize.simps) (auto split: sum.splits)
  from assms i have "members this' = members y"
    by (subst (asm) constOptimize.simps) (auto split: sum.splits if_splits)
  then show ?thesis using initialize_mode[OF i] by simp
qed

lemma setMPSet_mode:
  assumes "setMPSet sn ns this = Inr this'"
  shows "gofOpMode (members this') = gofOpMode (members this)"
proof (cases "gofOpMode (members this) = SimMaster")
  case False
  then show ?thesis using assms setMPSet_not_SimMaster[of this sn ns] by auto
next
  case True
  obtain f arr mp where this_eq: "this = GOF f arr mp" by (cases this)
  from assms True obtain b this1 arr2 where
    i: "initialize_SimMaster (GOF (f\<lparr>setNum := sn, numSets := ns\<rparr>) arr mp) = Inr (b, this1)"
    and t: "this' = GOF (members this1) arr2 (mpfeArray this1)"
    by (auto simp: this_eq Let_def split: sum.splits)
  show ?thesis using initialize_SimMaster_rank(3)[OF i] by (simp add: t this_eq)
qed

lemma redirectServersHook_mode:
  assumes "redirectServersHook l a b c this = Inr (r, this')"
  shows "gofOpMode (members this') = gofOpMode (members this)"
  using assms by (auto simp: redirectServersHook_def split: if_splits sum.splits)

lemma map_sum_snd_Inr: "map_sum id snd x = Inr b \<Longrightarrow> \<exists>a. x = Inr (a, b)"
  by (cases x) auto

lemma invoke_mode:
  assumes "invoke K op this = Inr this'"
  shows "gofOpMode (members this') = gofOpMode (members this)"
proof (cases op)
  case Evaluate
  then have "map_sum id snd (evaluate K this) = Inr this'" using assms by simp
  from map_sum_snd_Inr[OF this] obtain v where "evaluate K this = Inr (v, this')" by blast
  then show ?thesis by (rule evaluate_mode)
next
  case Initialize
  then have "map_sum id snd (initialize this) = Inr this'" using assms by simp
  from map_sum_snd_Inr[OF this] obtain b where "initialize this = Inr (b, this')" by blast
  then show ?thesis by (rule initialize_mode)
next
  case (RedirectServersHook l a b c)
  then have "map_sum id snd (redirectServersHook l a b c this) = Inr this'" using assms by simp
  from map_sum_snd_Inr[OF this] obtain r where "redirectServersHook l a b c this = Inr (r, this')"
    by blast
  then show ?thesis by (rule redirectServersHook_mode)
next
  case (ConstOptimize opcode)
  then have "constOptimize opcode this = Inr this'" using assms by simp
  then show ?thesis by (rule constOptimize_mode)
next
  case (SetMPSet sn ns)
  then have "setMPSet sn ns this = Inr this'" using assms by simp
  then show ?thesis by (rule setMPSet_mode)
next
  case (SetSimCount n)
  then show ?thesis using assms by (auto simp: setSimCount_def)
qed

lemma invokeAll_mode:
  "invokeAll K ops this = Inr this' \<Longrightarrow> gofOpMode (members this') = gofOpMode (members this)"
proof (induction ops arbitrary: this)
  case Nil
  then show ?case by simp
next
  case (Cons op ops)
  then obtain this1 where a: "invoke K op this = Inr this1" and b: "invokeAll K ops this1 = Inr this'"
    by (auto split: sum.splits)
  show ?case using Cons.IH[OF b] invoke_mode[OF a] by simp
qed

lemma copy_mode:
  assumes "RooAbsGoodnessOfFit_copy other = Inr c"
  shows "gofOpMode (members c) = gofOpMode (members other)"
  using assms
  by (subst (asm) RooAbsGoodnessOfFit_copy.simps) (auto simp: Let_def split: sum.splits if_splits)

text \<open>
  Claim C6. The constructor chooses the mode: \<open>MPMaster\<close> when \<open>nCPU > 1\<close>; otherwise
  \<open>SimMaster\<close> when the model is a \<^verbatim>\<open>RooSimultaneous\<close>; otherwise \<open>Slave\<close>. The mode is one value of
  the three, and no sequence of calls of \<^verbatim>\<open>evaluate\<close>, \<^verbatim>\<open>initialize\<close>, \<^verbatim>\<open>redirectServersHook\<close>,
  \<^verbatim>\<open>constOptimize\<close>, \<^verbatim>\<open>setMPSet\<close> and \<^verbatim>\<open>setSimCount\<close> changes it; a copy has the mode of its
  original.
\<close>

theorem C6_mode_chosen_once:
  "gofOpMode (members (RooAbsGoodnessOfFit name title pdf0 data0 projDeps0 nCPU0))
     = (if nCPU0 > 1 then MPMaster else if isSimultaneous pdf0 then SimMaster else Slave)
   \<and> (\<forall>K ops this'. invokeAll K ops this = Inr this' \<longrightarrow>
         gofOpMode (members this') = gofOpMode (members this))
   \<and> (\<forall>c. RooAbsGoodnessOfFit_copy this = Inr c \<longrightarrow> gofOpMode (members c) = gofOpMode (members this))"
proof -
  have "gofOpMode (members (RooAbsGoodnessOfFit name title pdf0 data0 projDeps0 nCPU0))
     = (if nCPU0 > 1 then MPMaster else if isSimultaneous pdf0 then SimMaster else Slave)"
    by (simp add: RooAbsGoodnessOfFit_def)
  moreover have "gofOpMode (members this') = gofOpMode (members this)"
    if "invokeAll K ops this = Inr this'" for K :: "'v gof_class" and ops this'
    using that by (rule invokeAll_mode)
  ultimately show ?thesis using copy_mode by blast
qed

text \<open>The three outcomes of the rule, and a run of four calls on a \<open>SimMaster\<close> object.\<close>

theorem C6_mode_chosen_once_witness:
  "gofOpMode (members (RooAbsGoodnessOfFit (TString ''nll'') (TString ''nll'') threeStates twoSubsets [] 1))
     = SimMaster
   \<and> gofOpMode (members (RooAbsGoodnessOfFit (TString ''nll'') (TString ''nll'') threeStates twoSubsets [] 2))
     = MPMaster
   \<and> gofOpMode (members (RooAbsGoodnessOfFit (TString ''nll'') (TString ''nll'') (PlainPdf []) twoSubsets [] 1))
     = Slave
   \<and> map_sum (\<lambda>e. ()) (\<lambda>this'. gofOpMode (members this'))
        (invokeAll countClass [Evaluate, Evaluate, Initialize, SetSimCount 3] simEngine) = Inr SimMaster"
proof -
  note t = C6_mode_chosen_once
  have s: "isSimultaneous threeStates" "\<not> isSimultaneous (PlainPdf [])"
    by (simp_all add: isSimultaneous_def threeStates_def)
  obtain this1 where e: "evaluate countClass simEngine = Inr (7, this1)"
    using simEngine_evaluate by blast
  note f = evaluate_fixed[OF e]
  have i2: "initialize this1 = Inr (False, this1)"
    using f by (simp add: initialize_def)
  have run: "invokeAll countClass [Evaluate, Evaluate, Initialize, SetSimCount 3] simEngine
               = Inr (setSimCount 3 this1)"
    using f by (simp add: e i2)
  have "gofOpMode (members (setSimCount 3 this1)) = gofOpMode (members simEngine)"
    using t[of _ _ _ _ _ _ simEngine, THEN conjunct2, THEN conjunct1, rule_format, OF run] .
  then have "map_sum (\<lambda>e. ()) (\<lambda>this'. gofOpMode (members this'))
        (invokeAll countClass [Evaluate, Evaluate, Initialize, SetSimCount 3] simEngine) = Inr SimMaster"
    by (subst run) (simp add: simEngine_fresh)
  moreover have "gofOpMode (members (RooAbsGoodnessOfFit (TString ''nll'') (TString ''nll'') threeStates twoSubsets [] 1))
     = SimMaster"
    using t[of "TString ''nll''" "TString ''nll''" threeStates twoSubsets "[]" 1, THEN conjunct1] s by simp
  moreover have "gofOpMode (members (RooAbsGoodnessOfFit (TString ''nll'') (TString ''nll'') threeStates twoSubsets [] 2))
     = MPMaster"
    using t[of "TString ''nll''" "TString ''nll''" threeStates twoSubsets "[]" 2, THEN conjunct1] by simp
  moreover have "gofOpMode (members (RooAbsGoodnessOfFit (TString ''nll'') (TString ''nll'') (PlainPdf []) twoSubsets [] 1))
     = Slave"
    using t[of "TString ''nll''" "TString ''nll''" "PlainPdf []" twoSubsets "[]" 1, THEN conjunct1] s by simp
  ultimately show ?thesis by blast
qed

subsection \<open>The children of a SimMaster object\<close>










subsection \<open>An MPMaster object and its prototype\<close>























lemma drop_update_before: "k < j \<Longrightarrow> drop j (xs[k := x]) = drop j xs"
  by simp







end
